theory Spec2Isabelle
  imports Main
begin

section \<open>Letter counters\<close>

text \<open>
  \<^verbatim>\<open>wordtool.py\<close> counts letters in \<^verbatim>\<open>collections.defaultdict(int)\<close> objects. Such a
  dictionary returns 0 for a key it does not hold and, as a side effect of that very
  lookup, stores the key with the value 0. A counter is modelled as an association list
  with distinct keys; the order of the entries stands for nothing (Python orders a
  dictionary by hash), and nothing proved below depends on it.
\<close>

type_synonym counter = "(char \<times> nat) list"

text \<open>The value a lookup \<^verbatim>\<open>d[k]\<close> returns.\<close>

definition dd_get :: "counter \<Rightarrow> char \<Rightarrow> nat" where
  "dd_get d k = (case map_of d k of None \<Rightarrow> 0 | Some v \<Rightarrow> v)"

text \<open>The dictionary a lookup \<^verbatim>\<open>d[k]\<close> leaves behind: a missing key is stored with 0.\<close>

definition dd_touch :: "counter \<Rightarrow> char \<Rightarrow> counter" where
  "dd_touch d k = (case map_of d k of None \<Rightarrow> d @ [(k, 0)] | Some v \<Rightarrow> d)"

text \<open>The assignment \<^verbatim>\<open>d[k] = v\<close>.\<close>

fun dd_set :: "counter \<Rightarrow> char \<Rightarrow> nat \<Rightarrow> counter" where
  "dd_set [] k v = [(k, v)]"
| "dd_set ((k', v') # d) k v = (if k' = k then (k, v) # d else (k', v') # dd_set d k v)"

text \<open>The statement \<^verbatim>\<open>d[k] += 1\<close>.\<close>

definition dd_incr :: "counter \<Rightarrow> char \<Rightarrow> counter" where
  "dd_incr d k = dd_set d k (dd_get d k + 1)"

text \<open>\<^verbatim>\<open>d.iterkeys()\<close>, as a list.\<close>

definition dd_keys :: "counter \<Rightarrow> char list" where
  "dd_keys d = map fst d"

text \<open>The characters \<^verbatim>\<open>chr(97)\<close> .. \<^verbatim>\<open>chr(122)\<close>.\<close>

definition lowercase :: string where
  "lowercase = ''abcdefghijklmnopqrstuvwxyz''"

definition EMPTY_DICT :: counter where
  "EMPTY_DICT = map (\<lambda>c. (c, 0)) lowercase"

definition LETTER_MAX_COUNT :: nat where
  "LETTER_MAX_COUNT = 100"

definition UNLIMITED_DICT :: counter where
  "UNLIMITED_DICT = map (\<lambda>c. (c, LETTER_MAX_COUNT)) lowercase"

section \<open>Helper functions\<close>

text \<open>\<^verbatim>\<open>_letter_count(word)\<close>: a copy of the empty dictionary, incremented once per character.\<close>

definition letter_count :: "string \<Rightarrow> counter" where
  "letter_count word = fold (\<lambda>L Lc. dd_incr Lc L) word EMPTY_DICT"

text \<open>
  \<^verbatim>\<open>_limiting_letter_count(word)\<close>: a copy of the unlimited dictionary; a letter whose
  count is the sentinel 100 is reset to 0 before it is incremented.
\<close>

definition limiting_step :: "char \<Rightarrow> counter \<Rightarrow> counter" where
  "limiting_step L Lc =
     dd_incr (if dd_get Lc L = LETTER_MAX_COUNT then dd_set Lc L 0 else dd_touch Lc L) L"

definition limiting_letter_count :: "string \<Rightarrow> counter" where
  "limiting_letter_count word = fold limiting_step word UNLIMITED_DICT"

text \<open>
  \<^verbatim>\<open>_word_is_subset_of(word, letterset)\<close>. The loop carries the tally \<^verbatim>\<open>Lc\<close>, the number
  of wildcards used, and the budget \<^verbatim>\<open>letterset\<close> itself: the budget is the caller's
  dictionary, and the lookups \<^verbatim>\<open>letterset[L]\<close> and \<^verbatim>\<open>letterset['?']\<close> store missing keys
  in it. The result is the flag, the tally, and the budget as the call leaves it.
\<close>

fun subset_loop :: "string \<Rightarrow> counter \<Rightarrow> nat \<Rightarrow> counter \<Rightarrow> bool \<times> counter \<times> counter" where
  "subset_loop [] Lc used letterset = (True, Lc, letterset)"
| "subset_loop (L # word) Lc used letterset =
     (let Lc1 = dd_incr Lc L;
          ls1 = dd_touch letterset L
      in if dd_get Lc1 L > dd_get ls1 L then
           (let used1 = used + 1;
                ls2 = dd_touch ls1 (CHR ''?'')
            in if used1 > dd_get ls2 (CHR ''?'') then (False, Lc1, ls2)
               else subset_loop word Lc1 used1 ls2)
         else subset_loop word Lc1 used ls1)"

definition word_is_subset_of :: "string \<Rightarrow> counter \<Rightarrow> bool \<times> counter \<times> counter" where
  "word_is_subset_of word letterset = subset_loop word EMPTY_DICT 0 letterset"

text \<open>
  \<^verbatim>\<open>_word_contains_at_least(word, letterset, Lc=None)\<close>. \<^verbatim>\<open>not Lc\<close> holds for \<^verbatim>\<open>None\<close> and
  for an empty dictionary. The lookups \<^verbatim>\<open>Lc[L]\<close> may store keys in the tally, which is
  local to the caller and dropped; \<^verbatim>\<open>letterset[L]\<close> is looked up at its own keys only.
\<close>

definition word_contains_at_least :: "string \<Rightarrow> counter \<Rightarrow> counter option \<Rightarrow> bool" where
  "word_contains_at_least word letterset Lc0 =
     (let Lc = (case Lc0 of None \<Rightarrow> letter_count word
                | Some d \<Rightarrow> if d = [] then letter_count word else d)
      in list_all (\<lambda>L. \<not> dd_get Lc L < dd_get letterset L) (dd_keys letterset))"

text \<open>
  The number of letter occurrences of a word that exceed the per-letter budget: what
  the wildcards have to absorb.
\<close>

definition excess :: "string \<Rightarrow> counter \<Rightarrow> nat" where
  "excess word letterset = (\<Sum>L\<in>set word. count_list word L - dd_get letterset L)"

definition fits :: "string \<Rightarrow> counter \<Rightarrow> bool" where
  "fits word letterset \<longleftrightarrow> excess word letterset \<le> dd_get letterset (CHR ''?'')"


section \<open>The environment of the engine\<close>

text \<open>
  The engine calls two libraries that are not part of the repository: \<^verbatim>\<open>re\<close> and the file
  system. They are parameters of the model. A compiled pattern object is determined by
  the pattern string it was compiled from, so it is represented by that string:
  \<open>re_valid lib p\<close> says that \<^verbatim>\<open>re.compile(p)\<close> returns (it raises \<^verbatim>\<open>re.error\<close>
  otherwise) and \<open>re_search lib p w\<close> is the truth value of \<^verbatim>\<open>re.compile(p).search(w)\<close>.
  \<open>read_lines lib f\<close> is the list of lines of the file named \<open>f\<close>, or \<open>None\<close> when
  \<^verbatim>\<open>open(f, 'r')\<close> raises. \<open>DEFAULT_DICTIONARY_FILE\<close> is the path of the bundled word list.
\<close>

record env =
  re_valid :: "string \<Rightarrow> bool"
  re_search :: "string \<Rightarrow> string \<Rightarrow> bool"
  read_lines :: "string \<Rightarrow> string list option"
  DEFAULT_DICTIONARY_FILE :: string

text \<open>
  The characters that \<^verbatim>\<open>re\<close> reads as themselves wherever they stand between the
  brackets of a character class: all but \<^verbatim>\<open>]\<close>, \<^verbatim>\<open>\\<close>, \<^verbatim>\<open>^\<close> and \<^verbatim>\<open>-\<close>.
\<close>

definition class_literal :: "char \<Rightarrow> bool" where
  "class_literal c \<longleftrightarrow> c \<notin> set [CHR '']'', CHR 0x5C, CHR ''^'', CHR ''-'']"

text \<open>
  What the documentation of \<^verbatim>\<open>re\<close> promises for a class of such characters: the pattern
  compiles, and a search succeeds exactly on the words that contain a member.
\<close>

definition class_semantics :: "env \<Rightarrow> bool" where
  "class_semantics lib \<longleftrightarrow>
     (\<forall>cs w. cs \<noteq> [] \<and> (\<forall>c\<in>set cs. class_literal c) \<longrightarrow>
        re_valid lib (CHR ''['' # cs @ '']'') \<and>
        (re_search lib (CHR ''['' # cs @ '']'') w \<longleftrightarrow> (\<exists>c\<in>set w. c \<in> set cs)))"

text \<open>\<^verbatim>\<open>str.strip()\<close> removes the ASCII white space at both ends.\<close>

definition is_space :: "char \<Rightarrow> bool" where
  "is_space c \<longleftrightarrow> c \<in> set [CHR 0x20, CHR 0x09, CHR 0x0A, CHR 0x0B, CHR 0x0C, CHR 0x0D]"

definition strip :: "string \<Rightarrow> string" where
  "strip s = rev (dropWhile is_space (rev (dropWhile is_space s)))"

definition read_wordlist :: "string list \<Rightarrow> string list" where
  "read_wordlist filehandle = map strip filehandle"

definition load_wordlist :: "env \<Rightarrow> string \<Rightarrow> string list option" where
  "load_wordlist lib filename =
     (let filename1 = (if filename = [] then DEFAULT_DICTIONARY_FILE lib else filename)
      in map_option read_wordlist (read_lines lib filename1))"

section \<open>The engine\<close>

text \<open>
  The attributes of a \<^verbatim>\<open>WordTool\<close> object, without the leading underscore of the private
  ones. \<^verbatim>\<open>None\<close> is \<open>None\<close>. Lengths are Python integers.

  An extra test is a Python callable, and a callable may keep state between its calls:
  what it answers may depend on what it was asked before. It is modelled by the list of
  the words it has been called with so far, and a function from that history and the
  word at hand to the answer. A call returns the answer and leaves the callable with
  the word added to its history. Each entry of \<^verbatim>\<open>extra_tests\<close> is taken to be a callable of
  its own, which returns a truth value and does not touch the engine.
\<close>

type_synonym test = "string list \<times> (string list \<Rightarrow> string \<Rightarrow> bool)"

definition call_test :: "test \<Rightarrow> string \<Rightarrow> bool \<times> test" where
  "call_test test word = (snd test (fst test) word, (fst test @ [word], snd test))"

record wordtool =
  max_length :: int
  effective_max_length :: int
  min_length :: int
  effective_min_length :: int
  available_letters :: string
  available_letters_counted :: "counter option"
  limited_letters :: string
  excluded_letters :: string
  excluded_letters_regex :: "string option"
  included_letters :: string
  included_letters_counted :: "counter option"
  pattern :: string
  regex :: "string option"
  wordlist :: "string list"
  cache_is_good :: bool
  cached_words :: "string list"
  extra_tests :: "test list"
  dictionary_file :: string

text \<open>
  The exceptions, under the names the specification gives them: \<^verbatim>\<open>AttributeError\<close> of the
  two letter setters, \<^verbatim>\<open>re.error\<close>, \<^verbatim>\<open>IOError\<close>, and the \<^verbatim>\<open>TypeError\<close> of subscripting
  \<^verbatim>\<open>None\<close>. A call either returns or raises, and in both cases leaves the object in
  some state.
\<close>

datatype error = ConflictingConstraint | InvalidPattern | InvalidWordListSource | TypeError

datatype outcome = Returned wordtool | Raised error wordtool

fun state_of :: "outcome \<Rightarrow> wordtool" where
  "state_of (Returned s) = s"
| "state_of (Raised e s) = s"

fun raised :: "outcome \<Rightarrow> error option" where
  "raised (Returned s) = None"
| "raised (Raised e s) = Some e"

subsection \<open>Effective bounds\<close>

definition update_effective_max_length :: "wordtool \<Rightarrow> wordtool" where
  "update_effective_max_length s =
     (if max_length s \<noteq> 0 \<and> available_letters s \<noteq> [] then
        s\<lparr>effective_max_length := min (max_length s) (int (length (available_letters s)))\<rparr>
      else if available_letters s \<noteq> [] then
        s\<lparr>effective_max_length := int (length (available_letters s))\<rparr>
      else if max_length s \<noteq> 0 then
        s\<lparr>effective_max_length := max_length s\<rparr>
      else s\<lparr>effective_max_length := 0\<rparr>)"

definition update_effective_min_length :: "wordtool \<Rightarrow> wordtool" where
  "update_effective_min_length s =
     (if min_length s \<noteq> 0 \<and> included_letters s \<noteq> [] then
        s\<lparr>effective_min_length := max (min_length s) (int (length (included_letters s)))\<rparr>
      else if included_letters s \<noteq> [] then
        s\<lparr>effective_min_length := int (length (included_letters s))\<rparr>
      else if min_length s \<noteq> 0 then
        s\<lparr>effective_min_length := min_length s\<rparr>
      else s\<lparr>effective_min_length := 0\<rparr>)"

subsection \<open>The derived excluded-letters regex\<close>

text \<open>
  \<^verbatim>\<open>re.compile('[' + "".join(excl_set) + ']')\<close>, or \<^verbatim>\<open>None\<close> for an empty set. Python
  spells the members in the iteration order of the set, which the language leaves
  open; the model spells them in the order of first insertion.
\<close>

definition compile_excluded :: "env \<Rightarrow> char list \<Rightarrow> wordtool \<Rightarrow> outcome" where
  "compile_excluded lib excl_set s =
     (if excl_set \<noteq> [] then
        (if re_valid lib (CHR ''['' # excl_set @ '']'')
         then Returned (s\<lparr>excluded_letters_regex := Some (CHR ''['' # excl_set @ '']'')\<rparr>)
         else Raised InvalidPattern s)
      else Returned (s\<lparr>excluded_letters_regex := None\<rparr>))"

text \<open>
  \<^verbatim>\<open>_update_excluded_letters_regex\<close>. When \<^verbatim>\<open>available_letters\<close> is non-empty the test
  \<^verbatim>\<open>self._available_letters_counted['?'] == 0\<close> is a lookup, which stores the key \<^verbatim>\<open>'?'\<close>
  if it is missing, before the keys are listed.
\<close>

definition update_excluded_letters_regex :: "env \<Rightarrow> wordtool \<Rightarrow> outcome" where
  "update_excluded_letters_regex lib s =
     (if available_letters s \<noteq> [] then
        (case available_letters_counted s of
           None \<Rightarrow> Raised TypeError s
         | Some d \<Rightarrow>
             (let d1 = dd_touch d (CHR ''?'');
                  s1 = s\<lparr>available_letters_counted := Some d1\<rparr>;
                  unavailable_letters =
                    (if dd_get d1 (CHR ''?'') = 0
                     then filter (\<lambda>L. dd_get d1 L = 0) (dd_keys d1) else [])
              in compile_excluded lib (remdups (excluded_letters s @ unavailable_letters)) s1))
      else compile_excluded lib (remdups (excluded_letters s)) s)"

subsection \<open>Setters\<close>

definition set_dictionary_file :: "env \<Rightarrow> string \<Rightarrow> wordtool \<Rightarrow> outcome" where
  "set_dictionary_file lib v s =
     (let s1 = s\<lparr>cache_is_good := False\<rparr>;
          v1 = (if v = [] then DEFAULT_DICTIONARY_FILE lib else v);
          s2 = s1\<lparr>dictionary_file := v1\<rparr>
      in case load_wordlist lib v1 of
           None \<Rightarrow> Raised InvalidWordListSource s2
         | Some ws \<Rightarrow> Returned (s2\<lparr>wordlist := ws\<rparr>))"

text \<open>
  \<^verbatim>\<open>read_dictionary_from(filehandle)\<close>: the argument is an open file, given by its name
  and its lines.
\<close>

definition read_dictionary_from :: "string \<times> string list \<Rightarrow> wordtool \<Rightarrow> wordtool" where
  "read_dictionary_from filehandle s =
     s\<lparr>dictionary_file := fst filehandle, wordlist := read_wordlist (snd filehandle)\<rparr>"

text \<open>\<^verbatim>\<open>wordlist\<close> and \<^verbatim>\<open>extra_tests\<close> are plain attributes: assignment stores the value.\<close>

definition set_wordlist :: "string list \<Rightarrow> wordtool \<Rightarrow> wordtool" where
  "set_wordlist v s = s\<lparr>wordlist := v\<rparr>"

definition set_extra_tests :: "test list \<Rightarrow> wordtool \<Rightarrow> wordtool" where
  "set_extra_tests v s = s\<lparr>extra_tests := v\<rparr>"

definition set_max_length :: "int \<Rightarrow> wordtool \<Rightarrow> wordtool" where
  "set_max_length v s = update_effective_max_length (s\<lparr>cache_is_good := False, max_length := v\<rparr>)"

definition set_min_length :: "int \<Rightarrow> wordtool \<Rightarrow> wordtool" where
  "set_min_length v s = update_effective_min_length (s\<lparr>cache_is_good := False, min_length := v\<rparr>)"

definition set_available_letters :: "env \<Rightarrow> string \<Rightarrow> wordtool \<Rightarrow> outcome" where
  "set_available_letters lib v s =
     (if v = available_letters s then Returned s
      else
        (let s1 = s\<lparr>cache_is_good := False\<rparr>
         in if limited_letters s1 \<noteq> [] then Raised ConflictingConstraint s1
            else
              (let s2 = s1\<lparr>available_letters := v,
                          available_letters_counted :=
                            (if v \<noteq> [] then Some (letter_count v) else None)\<rparr>
               in update_excluded_letters_regex lib (update_effective_max_length s2))))"

definition set_limited_letters :: "env \<Rightarrow> string \<Rightarrow> wordtool \<Rightarrow> outcome" where
  "set_limited_letters lib v s =
     (if v = limited_letters s then Returned s
      else
        (let s1 = s\<lparr>cache_is_good := False\<rparr>
         in if available_letters s1 \<noteq> [] then Raised ConflictingConstraint s1
            else
              (let s2 = s1\<lparr>limited_letters := v,
                          available_letters_counted :=
                            (if v \<noteq> [] then Some (limiting_letter_count v) else None)\<rparr>
               in update_excluded_letters_regex lib s2)))"

definition set_excluded_letters :: "env \<Rightarrow> string \<Rightarrow> wordtool \<Rightarrow> outcome" where
  "set_excluded_letters lib v s =
     update_excluded_letters_regex lib (s\<lparr>cache_is_good := False, excluded_letters := v\<rparr>)"

definition set_included_letters :: "string \<Rightarrow> wordtool \<Rightarrow> wordtool" where
  "set_included_letters v s =
     update_effective_min_length
       (s\<lparr>cache_is_good := False, included_letters := v,
          included_letters_counted := (if v \<noteq> [] then Some (letter_count v) else None)\<rparr>)"

definition set_pattern :: "env \<Rightarrow> string \<Rightarrow> wordtool \<Rightarrow> outcome" where
  "set_pattern lib v s =
     (let s1 = s\<lparr>cache_is_good := False, pattern := v\<rparr>
      in if v \<noteq> [] then
           (if re_valid lib v then Returned (s1\<lparr>regex := Some v\<rparr>)
            else Raised InvalidPattern s1)
         else Returned (s1\<lparr>regex := None\<rparr>))"

subsection \<open>Construction\<close>

text \<open>
  The attribute values \<^verbatim>\<open>__init__\<close> stores before it assigns \<^verbatim>\<open>dictionary_file\<close>, which
  loads the word list. When the load raises, no object is constructed.
\<close>

definition blank :: wordtool where
  "blank = \<lparr>max_length = 0, effective_max_length = 0, min_length = 0,
     effective_min_length = 0, available_letters = [], available_letters_counted = None,
     limited_letters = [], excluded_letters = [], excluded_letters_regex = None,
     included_letters = [], included_letters_counted = None, pattern = [], regex = None,
     wordlist = [], cache_is_good = False, cached_words = [], extra_tests = [],
     dictionary_file = []\<rparr>"

definition init :: "env \<Rightarrow> string \<Rightarrow> outcome" where
  "init lib dictionary_file0 = set_dictionary_file lib dictionary_file0 blank"

subsection \<open>Queries\<close>

definition check_for :: "wordtool \<Rightarrow> string \<Rightarrow> bool" where
  "check_for s word \<longleftrightarrow> word \<in> set (wordlist s)"

text \<open>
  The budget step of \<^verbatim>\<open>passes_internal_tests\<close>: \<^verbatim>\<open>_word_is_subset_of\<close> is called on the
  engine's own dictionary, so the keys its lookups store stay in the engine.
\<close>

definition budget_test :: "wordtool \<Rightarrow> string \<Rightarrow> bool \<times> counter option \<times> wordtool" where
  "budget_test s word =
     (case available_letters_counted s of
        None \<Rightarrow> (True, None, s)
      | Some d \<Rightarrow>
          if d = [] then (True, None, s)
          else (case word_is_subset_of word d of
                  (is_subset, Lc, d1) \<Rightarrow>
                    (is_subset, Some Lc, s\<lparr>available_letters_counted := Some d1\<rparr>)))"

definition included_test :: "wordtool \<Rightarrow> string \<Rightarrow> counter option \<Rightarrow> bool" where
  "included_test s word Lc =
     (case included_letters_counted s of
        None \<Rightarrow> True
      | Some letterset \<Rightarrow> letterset = [] \<or> word_contains_at_least word letterset Lc)"

definition passes_internal_tests :: "env \<Rightarrow> wordtool \<Rightarrow> string \<Rightarrow> bool \<times> wordtool" where
  "passes_internal_tests lib s word =
     (if effective_min_length s \<noteq> 0 \<and> int (length word) < effective_min_length s then (False, s)
      else if effective_max_length s \<noteq> 0 \<and> int (length word) > effective_max_length s then (False, s)
      else if (case regex s of None \<Rightarrow> False | Some p \<Rightarrow> \<not> re_search lib p word) then (False, s)
      else if (case excluded_letters_regex s of None \<Rightarrow> False | Some p \<Rightarrow> re_search lib p word)
        then (False, s)
      else (case budget_test s word of
              (is_subset, Lc, s1) \<Rightarrow>
                if \<not> is_subset then (False, s1)
                else if \<not> included_test s1 word Lc then (False, s1)
                else (True, s1)))"

text \<open>
  The loop of \<^verbatim>\<open>passes_extra_tests\<close>: the tests are called in order up to the first one
  that answers false; the tests behind it are not called.
\<close>

fun run_tests :: "test list \<Rightarrow> string \<Rightarrow> bool \<times> test list" where
  "run_tests [] word = (True, [])"
| "run_tests (test # tests) word =
     (case call_test test word of
        (ok, test1) \<Rightarrow>
          if \<not> ok then (False, test1 # tests)
          else (case run_tests tests word of
                  (ok2, tests1) \<Rightarrow> (ok2, test1 # tests1)))"

definition passes_extra_tests :: "wordtool \<Rightarrow> string \<Rightarrow> bool \<times> wordtool" where
  "passes_extra_tests s word =
     (case run_tests (extra_tests s) word of
        (ok, tests1) \<Rightarrow> (ok, s\<lparr>extra_tests := tests1\<rparr>))"

text \<open>\<^verbatim>\<open>is_word_valid\<close>: the \<^verbatim>\<open>and\<close> calls the extra tests only after the internal tests passed.\<close>

definition is_word_valid :: "env \<Rightarrow> wordtool \<Rightarrow> string \<Rightarrow> bool \<times> wordtool" where
  "is_word_valid lib s word =
     (case passes_internal_tests lib s word of
        (ok, s1) \<Rightarrow> if ok then passes_extra_tests s1 word else (False, s1))"

text \<open>The comprehension \<^verbatim>\<open>[w for w in self.wordlist if self.passes_internal_tests(w)]\<close>.\<close>

fun internal_filter :: "env \<Rightarrow> wordtool \<Rightarrow> string list \<Rightarrow> string list \<times> wordtool" where
  "internal_filter lib s [] = ([], s)"
| "internal_filter lib s (w # ws) =
     (case passes_internal_tests lib s w of
        (ok, s1) \<Rightarrow>
          (case internal_filter lib s1 ws of
             (found, s2) \<Rightarrow> (if ok then w # found else found, s2)))"

text \<open>The comprehension \<^verbatim>\<open>[w for w in self._cached_words if self.passes_extra_tests(w)]\<close>.\<close>

fun extra_filter :: "wordtool \<Rightarrow> string list \<Rightarrow> string list \<times> wordtool" where
  "extra_filter s [] = ([], s)"
| "extra_filter s (w # ws) =
     (case passes_extra_tests s w of
        (ok, s1) \<Rightarrow>
          (case extra_filter s1 ws of
             (found, s2) \<Rightarrow> (if ok then w # found else found, s2)))"

definition find_words :: "env \<Rightarrow> wordtool \<Rightarrow> string list \<times> wordtool" where
  "find_words lib s =
     (let s2 = (if \<not> cache_is_good s then
                  (case internal_filter lib s (wordlist s) of
                     (found, s1) \<Rightarrow> s1\<lparr>cached_words := found, cache_is_good := True\<rparr>)
                else s)
      in extra_filter s2 (cached_words s2))"

section \<open>Reachable states\<close>

text \<open>
  The states an engine can be in: it is constructed, and then attributes are assigned
  and methods are called, in any order; a call that raises leaves the object as it is
  at the raise. The predicate \<open>ok\<close> bounds the characters of the excluded letters and of
  the words that are tested; \<open>\<lambda>c. True\<close> gives every state.
\<close>

definition word_ok :: "(char \<Rightarrow> bool) \<Rightarrow> string \<Rightarrow> bool" where
  "word_ok ok w \<longleftrightarrow> list_all ok w"

inductive reachable :: "env \<Rightarrow> (char \<Rightarrow> bool) \<Rightarrow> wordtool \<Rightarrow> bool" for lib ok where
  r_init: "init lib f = Returned s \<Longrightarrow> reachable lib ok s"
| r_dictionary_file: "reachable lib ok s \<Longrightarrow> reachable lib ok (state_of (set_dictionary_file lib v s))"
| r_read_dictionary_from: "reachable lib ok s \<Longrightarrow> reachable lib ok (read_dictionary_from fh s)"
| r_wordlist: "reachable lib ok s \<Longrightarrow> reachable lib ok (set_wordlist ws s)"
| r_extra_tests: "reachable lib ok s \<Longrightarrow> reachable lib ok (set_extra_tests ts s)"
| r_max_length: "reachable lib ok s \<Longrightarrow> reachable lib ok (set_max_length n s)"
| r_min_length: "reachable lib ok s \<Longrightarrow> reachable lib ok (set_min_length n s)"
| r_available_letters: "reachable lib ok s \<Longrightarrow> reachable lib ok (state_of (set_available_letters lib v s))"
| r_limited_letters: "reachable lib ok s \<Longrightarrow> reachable lib ok (state_of (set_limited_letters lib v s))"
| r_excluded_letters: "reachable lib ok s \<Longrightarrow> word_ok ok v \<Longrightarrow>
     reachable lib ok (state_of (set_excluded_letters lib v s))"
| r_included_letters: "reachable lib ok s \<Longrightarrow> reachable lib ok (set_included_letters v s)"
| r_pattern: "reachable lib ok s \<Longrightarrow> reachable lib ok (state_of (set_pattern lib v s))"
| r_is_word_valid: "reachable lib ok s \<Longrightarrow> word_ok ok w \<Longrightarrow>
     reachable lib ok (snd (is_word_valid lib s w))"
| r_passes_internal_tests: "reachable lib ok s \<Longrightarrow> word_ok ok w \<Longrightarrow>
     reachable lib ok (snd (passes_internal_tests lib s w))"
| r_passes_extra_tests: "reachable lib ok s \<Longrightarrow> reachable lib ok (snd (passes_extra_tests s w))"
| r_find_words: "reachable lib ok s \<Longrightarrow> list_all (word_ok ok) (wordlist s) \<Longrightarrow>
     reachable lib ok (snd (find_words lib s))"

section \<open>Notions used in the statements\<close>

text \<open>
  The letters the engine keeps a count for whatever the constraint strings are: the 26
  keys of the initial dictionaries and the wildcard.
\<close>

definition tracked :: "char \<Rightarrow> bool" where
  "tracked c \<longleftrightarrow> c \<in> set lowercase \<or> c = CHR ''?''"

text \<open>Whether the derived regex is present and finds a match in a word.\<close>

definition excluded_match :: "env \<Rightarrow> wordtool \<Rightarrow> string \<Rightarrow> bool" where
  "excluded_match lib s w =
     (case excluded_letters_regex s of None \<Rightarrow> False | Some p \<Rightarrow> re_search lib p w)"

text \<open>
  The available letters are active without wildcard slack: the condition under which
  \<^verbatim>\<open>_update_excluded_letters_regex\<close> adds the letters of count zero.
\<close>

definition no_slack :: "wordtool \<Rightarrow> bool" where
  "no_slack s \<longleftrightarrow> available_letters s \<noteq> [] \<and> count_list (available_letters s) (CHR ''?'') = 0"

text \<open>
  The bounds a recomputation stores: the effective-length field after
  \<^verbatim>\<open>_update_effective_max_length\<close> and \<^verbatim>\<open>_update_effective_min_length\<close> have run.
\<close>

definition effective_max_of :: "wordtool \<Rightarrow> int" where
  "effective_max_of s = effective_max_length (update_effective_max_length s)"

definition effective_min_of :: "wordtool \<Rightarrow> int" where
  "effective_min_of s = effective_min_length (update_effective_min_length s)"

text \<open>
  The bounds in the words of the specification, where a length counts as set when it
  is positive: the minimum of the two when both are set and positive, else whichever is
  set, else 0.
\<close>

definition claimed_effective_max :: "wordtool \<Rightarrow> int" where
  "claimed_effective_max s =
     (if 0 < max_length s \<and> available_letters s \<noteq> []
      then min (max_length s) (int (length (available_letters s)))
      else if available_letters s \<noteq> [] then int (length (available_letters s))
      else if 0 < max_length s then max_length s else 0)"

definition claimed_effective_min :: "wordtool \<Rightarrow> int" where
  "claimed_effective_min s =
     (if 0 < min_length s \<and> included_letters s \<noteq> []
      then max (min_length s) (int (length (included_letters s)))
      else if included_letters s \<noteq> [] then int (length (included_letters s))
      else if 0 < min_length s then min_length s else 0)"

text \<open>
  The extra tests as functions of the list of callables alone: the words a run of the
  comprehension keeps, and the callables it leaves behind.
\<close>

fun tests_filter :: "test list \<Rightarrow> string list \<Rightarrow> string list" where
  "tests_filter ts [] = []"
| "tests_filter ts (w # ws) =
     (if fst (run_tests ts w) then w # tests_filter (snd (run_tests ts w)) ws
      else tests_filter (snd (run_tests ts w)) ws)"

fun tests_after :: "test list \<Rightarrow> string list \<Rightarrow> test list" where
  "tests_after ts [] = ts"
| "tests_after ts (w # ws) = tests_after (snd (run_tests ts w)) ws"

text \<open>A test whose answer depends on the word only, whatever it was asked before.\<close>

definition stateless :: "test \<Rightarrow> bool" where
  "stateless t \<longleftrightarrow> (\<forall>h h' w. snd t h w = snd t h' w)"

text \<open>A test that answers true on its first \<open>n\<close> calls and false afterwards.\<close>

definition first_calls :: "nat \<Rightarrow> test" where
  "first_calls n = ([], \<lambda>h w. length h < n)"

text \<open>A test of the word alone: it has three letters.\<close>

definition three_letters :: test where
  "three_letters = ([], \<lambda>h w. length w = 3)"

text \<open>The first half of \<^verbatim>\<open>find_words\<close>: the cache is rebuilt when it is stale.\<close>

definition rebuild :: "env \<Rightarrow> wordtool \<Rightarrow> wordtool" where
  "rebuild lib s =
     (if \<not> cache_is_good s then
        (case internal_filter lib s (wordlist s) of
           (found, s1) \<Rightarrow> s1\<lparr>cached_words := found, cache_is_good := True\<rparr>)
      else s)"

text \<open>The state with the letter budget blanked: what the queries never change.\<close>

definition uncounted :: "wordtool \<Rightarrow> wordtool" where
  "uncounted s = s\<lparr>available_letters_counted := None\<rparr>"

text \<open>
  Two budgets that no lookup can tell apart: both absent, or both present with the same
  value at every key and the same truth value as dictionaries.
\<close>

definition budget_equiv :: "counter option \<Rightarrow> counter option \<Rightarrow> bool" where
  "budget_equiv b b' \<longleftrightarrow>
     (case b of
        None \<Rightarrow> b' = None
      | Some d \<Rightarrow>
          (case b' of
             None \<Rightarrow> False
           | Some d' \<Rightarrow> (\<forall>k. dd_get d' k = dd_get d k) \<and> (d' = [] \<longleftrightarrow> d = [])))"

definition same_budget :: "wordtool \<Rightarrow> wordtool \<Rightarrow> bool" where
  "same_budget s s' \<longleftrightarrow>
     uncounted s' = uncounted s \<and>
     budget_equiv (available_letters_counted s) (available_letters_counted s')"

text \<open>Invariants of the reachable states.\<close>

definition bounds_inv :: "env \<Rightarrow> wordtool \<Rightarrow> bool" where
  "bounds_inv lib s \<longleftrightarrow>
     update_effective_max_length s = s \<and> update_effective_min_length s = s \<and>
     (available_letters s = [] \<or> limited_letters s = []) \<and>
     (case regex s of None \<Rightarrow> True | Some p \<Rightarrow> re_valid lib p)"

definition budget_inv :: "(char \<Rightarrow> bool) \<Rightarrow> wordtool \<Rightarrow> bool" where
  "budget_inv ok s \<longleftrightarrow>
     (available_letters s \<noteq> [] \<longrightarrow>
        (\<exists>d. available_letters_counted s = Some d \<and>
             (\<forall>k. dd_get d k = count_list (available_letters s) k) \<and>
             set lowercase \<subseteq> set (dd_keys d) \<and>
             (\<forall>k\<in>set (dd_keys d). dd_get d k = 0 \<longrightarrow> tracked k \<or> ok k)))"

definition zero_keys :: "wordtool \<Rightarrow> char set" where
  "zero_keys s =
     (case available_letters_counted s of
        None \<Rightarrow> {}
      | Some d \<Rightarrow> {k \<in> set (dd_keys d). dd_get d k = 0})"

definition class_inv :: "wordtool \<Rightarrow> bool" where
  "class_inv s \<longleftrightarrow>
     (\<exists>cs. excluded_letters_regex s = (if cs = [] then None else Some (CHR ''['' # cs @ '']'')) \<and>
        (\<forall>c\<in>set cs. c \<in> set (excluded_letters s) \<or> (no_slack s \<and> c \<in> zero_keys s)) \<and>
        (\<forall>c. c \<in> set (excluded_letters s) \<or>
              (no_slack s \<and> tracked c \<and> count_list (available_letters s) c = 0)
              \<longrightarrow> c \<in> set cs))"

definition excluded_inv :: "(char \<Rightarrow> bool) \<Rightarrow> wordtool \<Rightarrow> bool" where
  "excluded_inv ok s \<longleftrightarrow> budget_inv ok s \<and> list_all ok (excluded_letters s) \<and> class_inv s"

text \<open>
  The cache holds what a rebuild would compute: the assumption under which a fresh
  cache can be compared with a later rebuild.
\<close>

definition cache_coherent :: "env \<Rightarrow> wordtool \<Rightarrow> bool" where
  "cache_coherent lib s \<longleftrightarrow>
     (cache_is_good s \<longrightarrow>
        cached_words s = filter (\<lambda>w. fst (passes_internal_tests lib s w)) (wordlist s))"

section \<open>A sample environment\<close>

text \<open>
  A small instance of the libraries, used to run the engine on concrete inputs: a
  matcher for three forms of pattern (a class of ordinary characters, a literal anchored
  at the start, a literal), which rejects three malformed patterns as \<^verbatim>\<open>re\<close> does, and
  a file system with one word list.
\<close>

fun infix_search :: "string \<Rightarrow> string \<Rightarrow> bool" where
  "infix_search p [] = (p = [])"
| "infix_search p (x # xs) = (take (length p) (x # xs) = p \<or> infix_search p xs)"

definition mini_valid :: "string \<Rightarrow> bool" where
  "mini_valid p \<longleftrightarrow> p \<notin> set [''('', ''['', ''[^]'']"

definition mini_search :: "string \<Rightarrow> string \<Rightarrow> bool" where
  "mini_search p w =
     (case p of
        [] \<Rightarrow> True
      | c # r \<Rightarrow>
          if c = CHR ''['' \<and> r \<noteq> [] \<and> last r = CHR '']''
          then list_ex (\<lambda>x. x \<in> set (butlast r)) w
          else if c = CHR ''^'' then take (length r) w = r
          else infix_search p w)"

definition sample_lib :: env where
  "sample_lib = \<lparr>re_valid = mini_valid, re_search = mini_search,
     read_lines = (\<lambda>f. if f = ''wordlist''
        then Some [''cat'', ''cart'', ''art'', ''tar'', ''rat'', ''cats''] else None),
     DEFAULT_DICTIONARY_FILE = ''wordlist''\<rparr>"

definition sample :: wordtool where
  "sample = state_of (init sample_lib [])"


text \<open>The sample engine after one query and an assignment to \<^verbatim>\<open>wordlist\<close>.\<close>

definition sample_stale :: wordtool where
  "sample_stale = set_wordlist [''dog''] (snd (find_words sample_lib sample))"

text \<open>The sample engine with available letters and one stateless extra test.\<close>

definition sample_tested :: wordtool where
  "sample_tested =
     set_extra_tests [three_letters] (state_of (set_available_letters sample_lib ''cart'' sample))"

text \<open>The sample engine with an extra test that keeps count of its calls.\<close>

definition sample_counting :: wordtool where
  "sample_counting = set_extra_tests [first_calls 4] sample"

text \<open>The sample engine with a negative maximum length, and with a negative minimum.\<close>

definition sample_negative_max :: wordtool where
  "sample_negative_max = state_of (set_available_letters sample_lib ''cart'' (set_max_length (- 1) sample))"

definition sample_negative_min :: wordtool where
  "sample_negative_min = set_min_length (- 2) sample"


section \<open>Properties of the counters\<close>


lemma dd_get_set: "dd_get (dd_set d k v) k' = (if k' = k then v else dd_get d k')"
  by (induction d) (auto simp: dd_get_def)

lemma dd_get_incr: "dd_get (dd_incr d k) k' = (if k' = k then dd_get d k + 1 else dd_get d k')"
  by (simp add: dd_incr_def dd_get_set)

lemma dd_get_touch: "dd_get (dd_touch d k) k' = dd_get d k'"
  by (auto simp: dd_touch_def dd_get_def map_add_def split: option.splits)

lemma dd_get_fold_incr:
  "dd_get (fold (\<lambda>L Lc. dd_incr Lc L) w d) k = dd_get d k + count_list w k"
  by (induction w arbitrary: d) (auto simp: dd_get_incr)

lemma dd_get_EMPTY: "dd_get EMPTY_DICT k = 0"
  by (auto simp: dd_get_def EMPTY_DICT_def map_of_map_restrict restrict_map_def split: option.splits dest!: map_of_SomeD)

lemma dd_get_letter_count: "dd_get (letter_count w) k = count_list w k"
  by (simp add: letter_count_def dd_get_fold_incr dd_get_EMPTY)

lemma excess_UNIV: "excess w b = (\<Sum>L\<in>UNIV. count_list w L - dd_get b L)"
  unfolding excess_def
  by (rule sum.mono_neutral_left) (auto simp: count_list_0_iff)

lemma excess_snoc:
  "excess (w @ [L]) b = excess w b + (if count_list w L + 1 > dd_get b L then 1 else 0)"
proof -
  have "excess (w @ [L]) b = (count_list (w @ [L]) L - dd_get b L) + (\<Sum>x\<in>UNIV - {L}. count_list (w @ [L]) x - dd_get b x)"
    unfolding excess_UNIV by (rule sum.remove) auto
  also have "(\<Sum>x\<in>UNIV - {L}. count_list (w @ [L]) x - dd_get b x) = (\<Sum>x\<in>UNIV - {L}. count_list w x - dd_get b x)"
    by (rule sum.cong) auto
  finally have A: "excess (w @ [L]) b = (count_list (w @ [L]) L - dd_get b L) + (\<Sum>x\<in>UNIV - {L}. count_list w x - dd_get b x)" .
  have B: "excess w b = (count_list w L - dd_get b L) + (\<Sum>x\<in>UNIV - {L}. count_list w x - dd_get b x)"
    unfolding excess_UNIV by (rule sum.remove) auto
  show ?thesis using A B by auto
qed

lemma excess_cong: "(\<And>k. dd_get b k = dd_get b' k) \<Longrightarrow> excess w b = excess w b'"
  by (simp add: excess_def)

lemma excess_append_mono: "excess p b \<le> excess (p @ q) b"
proof (induction q rule: rev_induct)
  case Nil
  show ?case by simp
next
  case (snoc x xs)
  have "excess (p @ xs) b \<le> excess ((p @ xs) @ [x]) b"
    by (simp only: excess_snoc)
  with snoc show ?case by simp
qed

lemma not_fits_append: "\<not> fits p b \<Longrightarrow> \<not> fits (p @ q) b"
  using excess_append_mono [of p b q] by (simp add: fits_def)

lemma subset_loop_spec:
  assumes "\<And>k. dd_get Lc k = count_list pre k"
    and "used = excess pre b"
    and "\<And>k. dd_get ls k = dd_get b k"
    and "fits pre b"
    and "subset_loop w Lc used ls = (ok, Lc', ls')"
  shows "(ok \<longleftrightarrow> fits (pre @ w) b) \<and>
         (ok \<longrightarrow> Lc' = fold (\<lambda>L d. dd_incr d L) w Lc) \<and>
         (\<not> ok \<longrightarrow> (\<exists>n<length w. Lc' = fold (\<lambda>L d. dd_incr d L) (take (Suc n) w) Lc \<and>
                       fits (pre @ take n w) b \<and> \<not> fits (pre @ take (Suc n) w) b)) \<and>
         (\<forall>k. dd_get ls' k = dd_get b k)"
  using assms
proof (induction w arbitrary: Lc used ls pre)
  case Nil
  then show ?case by simp
next
  case (Cons L w)
  let ?Lc1 = "dd_incr Lc L"
  let ?ls1 = "dd_touch ls L"
  let ?ls2 = "dd_touch ?ls1 (CHR ''?'')"
  have cnt1: "\<And>k. dd_get ?Lc1 k = count_list (pre @ [L]) k"
    using Cons.prems(1) by (simp add: dd_get_incr)
  have ls1: "\<And>k. dd_get ?ls1 k = dd_get b k" "\<And>k. dd_get ?ls2 k = dd_get b k"
    using Cons.prems(3) by (simp_all add: dd_get_touch)
  show ?case
  proof (cases "dd_get ?Lc1 L > dd_get ?ls1 L")
    case over: True
    then have ex1: "excess (pre @ [L]) b = used + 1"
      using Cons.prems(1,2) ls1 by (simp add: excess_snoc dd_get_incr)
    show ?thesis
    proof (cases "used + 1 > dd_get ?ls2 (CHR ''?'')")
      case True
      then have res: "ok = False" "Lc' = ?Lc1" "ls' = ?ls2"
        using Cons.prems(5) over by (simp_all add: Let_def)
      have nf: "\<not> fits (pre @ [L]) b"
        using True ex1 ls1 by (simp add: fits_def)
      then have "\<not> fits (pre @ L # w) b"
        using not_fits_append [of "pre @ [L]" b w] by simp
      moreover have "\<exists>n<length (L # w). Lc' = fold (\<lambda>L d. dd_incr d L) (take (Suc n) (L # w)) Lc \<and>
                       fits (pre @ take n (L # w)) b \<and> \<not> fits (pre @ take (Suc n) (L # w)) b"
        using nf res Cons.prems(4) by (intro exI [of _ 0]) simp
      ultimately show ?thesis using res ls1 by simp
    next
      case False
      then have rec: "subset_loop w ?Lc1 (used + 1) ?ls2 = (ok, Lc', ls')"
        using Cons.prems(5) over by (simp add: Let_def)
      have f1: "fits (pre @ [L]) b"
        using False ex1 ls1 by (simp add: fits_def)
      have IH: "(ok \<longleftrightarrow> fits ((pre @ [L]) @ w) b) \<and>
         (ok \<longrightarrow> Lc' = fold (\<lambda>L d. dd_incr d L) w ?Lc1) \<and>
         (\<not> ok \<longrightarrow> (\<exists>n<length w. Lc' = fold (\<lambda>L d. dd_incr d L) (take (Suc n) w) ?Lc1 \<and>
                       fits ((pre @ [L]) @ take n w) b \<and> \<not> fits ((pre @ [L]) @ take (Suc n) w) b)) \<and>
         (\<forall>k. dd_get ls' k = dd_get b k)"
        by (rule Cons.IH [OF cnt1 ex1 [symmetric] ls1(2) f1 rec])
      show ?thesis
      proof (cases ok)
        case True
        then show ?thesis using IH by simp
      next
        case False
        then obtain n where "n < length w" "Lc' = fold (\<lambda>L d. dd_incr d L) (take (Suc n) w) ?Lc1"
            "fits ((pre @ [L]) @ take n w) b" "\<not> fits ((pre @ [L]) @ take (Suc n) w) b"
          using IH by blast
        then have "\<exists>n<length (L # w). Lc' = fold (\<lambda>L d. dd_incr d L) (take (Suc n) (L # w)) Lc \<and>
                       fits (pre @ take n (L # w)) b \<and> \<not> fits (pre @ take (Suc n) (L # w)) b"
          by (intro exI [of _ "Suc n"]) simp
        then show ?thesis using False IH by simp
      qed
    qed
  next
    case under: False
    then have ex1: "excess (pre @ [L]) b = used"
      using Cons.prems(1,2) ls1 by (simp add: excess_snoc dd_get_incr)
    have rec: "subset_loop w ?Lc1 used ?ls1 = (ok, Lc', ls')"
      using Cons.prems(5) under by (simp add: Let_def)
    have f1: "fits (pre @ [L]) b"
      using Cons.prems(2,4) ex1 by (simp add: fits_def)
    have IH: "(ok \<longleftrightarrow> fits ((pre @ [L]) @ w) b) \<and>
         (ok \<longrightarrow> Lc' = fold (\<lambda>L d. dd_incr d L) w ?Lc1) \<and>
         (\<not> ok \<longrightarrow> (\<exists>n<length w. Lc' = fold (\<lambda>L d. dd_incr d L) (take (Suc n) w) ?Lc1 \<and>
                       fits ((pre @ [L]) @ take n w) b \<and> \<not> fits ((pre @ [L]) @ take (Suc n) w) b)) \<and>
         (\<forall>k. dd_get ls' k = dd_get b k)"
      by (rule Cons.IH [OF cnt1 ex1 [symmetric] ls1(1) f1 rec])
    show ?thesis
    proof (cases ok)
      case True
      then show ?thesis using IH by simp
    next
      case False
      then obtain n where "n < length w" "Lc' = fold (\<lambda>L d. dd_incr d L) (take (Suc n) w) ?Lc1"
          "fits ((pre @ [L]) @ take n w) b" "\<not> fits ((pre @ [L]) @ take (Suc n) w) b"
        using IH by blast
      then have "\<exists>n<length (L # w). Lc' = fold (\<lambda>L d. dd_incr d L) (take (Suc n) (L # w)) Lc \<and>
                     fits (pre @ take n (L # w)) b \<and> \<not> fits (pre @ take (Suc n) (L # w)) b"
        by (intro exI [of _ "Suc n"]) simp
      then show ?thesis using False IH by simp
    qed
  qed
qed

lemma excess_Nil: "excess [] b = 0"
  by (simp add: excess_def)

lemma word_is_subset_of_cases:
  assumes "word_is_subset_of w b = (ok, Lc', b')"
  shows "(ok \<longleftrightarrow> excess w b \<le> dd_get b (CHR ''?'')) \<and>
         (ok \<longrightarrow> Lc' = letter_count w) \<and>
         (\<not> ok \<longrightarrow> (\<exists>n<length w. Lc' = letter_count (take (Suc n) w) \<and>
                       fits (take n w) b \<and> \<not> fits (take (Suc n) w) b)) \<and>
         (\<forall>k. dd_get b' k = dd_get b k)"
proof -
  have "(ok \<longleftrightarrow> fits ([] @ w) b) \<and>
         (ok \<longrightarrow> Lc' = fold (\<lambda>L d. dd_incr d L) w EMPTY_DICT) \<and>
         (\<not> ok \<longrightarrow> (\<exists>n<length w. Lc' = fold (\<lambda>L d. dd_incr d L) (take (Suc n) w) EMPTY_DICT \<and>
                       fits ([] @ take n w) b \<and> \<not> fits ([] @ take (Suc n) w) b)) \<and>
         (\<forall>k. dd_get b' k = dd_get b k)"
  proof (rule subset_loop_spec)
    show "\<And>k. dd_get EMPTY_DICT k = count_list [] k" by (simp add: dd_get_EMPTY)
    show "0 = excess [] b" by (simp add: excess_Nil)
    show "fits [] b" by (simp add: fits_def excess_Nil)
    show "subset_loop w EMPTY_DICT 0 b = (ok, Lc', b')"
      using assms by (simp add: word_is_subset_of_def)
  qed simp
  then show ?thesis by (simp add: fits_def letter_count_def)
qed


text \<open>
  C3. \<^verbatim>\<open>_word_is_subset_of(word, budget)\<close> succeeds if and only if the number of letter
  occurrences of the word beyond the per-letter budget is at most \<^verbatim>\<open>budget['?']\<close>. On
  success the returned tally is the letter count of the whole word. On failure the call
  returns at the first letter that no longer fits, and the tally is the letter count of
  the word up to and including that letter. With the budget of \<^verbatim>\<open>"cat?"\<close> a word passes
  exactly when at most one of its letters is in excess: \<^verbatim>\<open>"cart"\<close> (one letter outside
  c, a, t) passes and \<^verbatim>\<open>"cars"\<close> (two letters outside) fails.
\<close>

theorem word_is_subset_of_wildcards:
  "(fst (word_is_subset_of w b) \<longleftrightarrow> excess w b \<le> dd_get b (CHR ''?'')) \<and>
   (fst (word_is_subset_of w b) \<longrightarrow> fst (snd (word_is_subset_of w b)) = letter_count w) \<and>
   (\<not> fst (word_is_subset_of w b) \<longrightarrow>
      (\<exists>n<length w. fst (snd (word_is_subset_of w b)) = letter_count (take (Suc n) w) \<and>
         fits (take n w) b \<and> \<not> fits (take (Suc n) w) b)) \<and>
   (fst (word_is_subset_of w (letter_count ''cat?'')) \<longleftrightarrow> excess w (letter_count ''cat?'') \<le> 1) \<and>
   excess ''cart'' (letter_count ''cat?'') = 1 \<and>
   fst (word_is_subset_of ''cart'' (letter_count ''cat?'')) \<and>
   excess ''cars'' (letter_count ''cat?'') = 2 \<and>
   \<not> fst (word_is_subset_of ''cars'' (letter_count ''cat?''))"
proof -
  obtain ok Lc' b' where r: "word_is_subset_of w b = (ok, Lc', b')"
    by (cases "word_is_subset_of w b") auto
  obtain ok2 Lc2 b2 where r2: "word_is_subset_of w (letter_count ''cat?'') = (ok2, Lc2, b2)"
    by (cases "word_is_subset_of w (letter_count ''cat?'')") auto
  have wild: "dd_get (letter_count ''cat?'') (CHR ''?'') = 1"
    by (simp add: dd_get_letter_count)
  have e1: "excess ''cart'' (letter_count ''cat?'') = 1"
    by (simp add: excess_def dd_get_letter_count)
  have e2: "excess ''cars'' (letter_count ''cat?'') = 2"
    by (simp add: excess_def dd_get_letter_count)
  obtain ok3 Lc3 b3 where r3: "word_is_subset_of ''cart'' (letter_count ''cat?'') = (ok3, Lc3, b3)"
    by (cases "word_is_subset_of ''cart'' (letter_count ''cat?'')") auto
  obtain ok4 Lc4 b4 where r4: "word_is_subset_of ''cars'' (letter_count ''cat?'') = (ok4, Lc4, b4)"
    by (cases "word_is_subset_of ''cars'' (letter_count ''cat?'')") auto
  have p3: "ok3" using word_is_subset_of_cases [OF r3] e1 wild by simp
  have p4: "\<not> ok4" using word_is_subset_of_cases [OF r4] e2 wild by simp
  show ?thesis
    using word_is_subset_of_cases [OF r] word_is_subset_of_cases [OF r2] wild e1 e2 p3 p4
    by (simp add: r r2 r3 r4)
qed

theorem word_is_subset_of_wildcards_witness:
  "fst (word_is_subset_of ''cart'' (letter_count ''cat?'')) \<and>
   fst (snd (word_is_subset_of ''cart'' (letter_count ''cat?''))) = letter_count ''cart'' \<and>
   \<not> fst (word_is_subset_of ''cars'' (letter_count ''cat?'')) \<and>
   (\<exists>n<length ''cars''.
      fst (snd (word_is_subset_of ''cars'' (letter_count ''cat?''))) = letter_count (take (Suc n) ''cars'') \<and>
      fits (take n ''cars'') (letter_count ''cat?'') \<and>
      \<not> fits (take (Suc n) ''cars'') (letter_count ''cat?''))"
proof -
  have pass: "fst (word_is_subset_of ''cart'' (letter_count ''cat?''))"
    by code_simp
  have fail: "\<not> fst (word_is_subset_of ''cars'' (letter_count ''cat?''))"
    by code_simp
  show ?thesis
    using word_is_subset_of_wildcards [of "''cart''" "letter_count ''cat?''"]
      word_is_subset_of_wildcards [of "''cars''" "letter_count ''cat?''"] pass fail
    by blast
qed

section \<open>What the queries leave unchanged\<close>

text \<open>
  The internal tests change the engine in one place only, the letter budget, where
  their lookups store keys. The extra tests change the callables only.
\<close>

lemma uncounted_fields:
  assumes "uncounted s' = uncounted s"
  shows "max_length s' = max_length s" "effective_max_length s' = effective_max_length s"
    "min_length s' = min_length s" "effective_min_length s' = effective_min_length s"
    "available_letters s' = available_letters s" "limited_letters s' = limited_letters s"
    "excluded_letters s' = excluded_letters s"
    "excluded_letters_regex s' = excluded_letters_regex s"
    "included_letters s' = included_letters s"
    "included_letters_counted s' = included_letters_counted s"
    "pattern s' = pattern s" "regex s' = regex s" "wordlist s' = wordlist s"
    "cache_is_good s' = cache_is_good s" "cached_words s' = cached_words s"
    "extra_tests s' = extra_tests s" "dictionary_file s' = dictionary_file s"
  using assms by (cases s; cases s'; simp add: uncounted_def)+

lemma uncounted_budget_test: "uncounted (snd (snd (budget_test s w))) = uncounted s"
  by (simp add: budget_test_def uncounted_def split: option.splits prod.splits)

lemma uncounted_passes_internal_tests:
  "uncounted (snd (passes_internal_tests lib s w)) = uncounted s"
  using uncounted_budget_test [of s w]
  by (auto simp: passes_internal_tests_def split: prod.splits)

lemma uncounted_internal_filter:
  "uncounted (snd (internal_filter lib s ws)) = uncounted s"
proof (induction ws arbitrary: s)
  case Nil
  show ?case by simp
next
  case (Cons w ws)
  show ?case
    using Cons.IH [of "snd (passes_internal_tests lib s w)"]
      uncounted_passes_internal_tests [of lib s w]
    by (auto split: prod.splits)
qed

lemma passes_extra_tests_eq:
  "passes_extra_tests s w =
     (fst (run_tests (extra_tests s) w), s\<lparr>extra_tests := snd (run_tests (extra_tests s) w)\<rparr>)"
  by (simp add: passes_extra_tests_def case_prod_beta)

lemma extra_filter_eq:
  "extra_filter s ws =
     (tests_filter (extra_tests s) ws, s\<lparr>extra_tests := tests_after (extra_tests s) ws\<rparr>)"
proof (induction ws arbitrary: s)
  case Nil
  show ?case by simp
next
  case (Cons w ws)
  show ?case
    by (simp add: passes_extra_tests_eq Cons.IH case_prod_beta)
qed

lemma run_tests_behaviour: "map snd (snd (run_tests ts w)) = map snd ts"
  by (induction ts) (auto simp: call_test_def case_prod_beta)

lemma stateless_run:
  "list_all stateless ts \<Longrightarrow> map snd ts' = map snd ts \<Longrightarrow>
     fst (run_tests ts' w) = fst (run_tests ts w)"
proof (induction ts arbitrary: ts')
  case Nil
  then show ?case by simp
next
  case (Cons t ts)
  then obtain t' us where ts': "ts' = t' # us" "snd t' = snd t" "map snd us = map snd ts"
    by (cases ts') auto
  have a: "snd t (fst t') w = snd t (fst t) w"
    using Cons.prems(1) by (simp add: stateless_def)
  have "fst (run_tests us w) = fst (run_tests ts w)"
    using Cons.IH [of us] Cons.prems(1) ts'(3) by simp
  then show ?case using ts' a by (simp add: call_test_def case_prod_beta)
qed

lemma stateless_behaviour:
  "map snd ts' = map snd ts \<Longrightarrow> list_all stateless ts' = list_all stateless ts"
proof (induction ts arbitrary: ts')
  case Nil
  then show ?case by simp
next
  case (Cons t ts)
  then obtain t' us where "ts' = t' # us" "snd t' = snd t" "map snd us = map snd ts"
    by (cases ts') auto
  then show ?case using Cons.IH [of us] by (simp add: stateless_def)
qed

lemma tests_after_behaviour: "map snd (tests_after ts ws) = map snd ts"
  by (induction ws arbitrary: ts) (simp_all add: run_tests_behaviour)

lemma tests_filter_stateless:
  "list_all stateless ts \<Longrightarrow> tests_filter ts ws = filter (\<lambda>w. fst (run_tests ts w)) ws"
proof (induction ws arbitrary: ts)
  case Nil
  show ?case by simp
next
  case (Cons w ws)
  let ?ts1 = "snd (run_tests ts w)"
  have b: "map snd ?ts1 = map snd ts" by (rule run_tests_behaviour)
  then have "list_all stateless ?ts1"
    using Cons.prems stateless_behaviour [of ?ts1 ts] by simp
  then have "tests_filter ?ts1 ws = filter (\<lambda>w. fst (run_tests ?ts1 w)) ws"
    by (rule Cons.IH)
  also have "\<dots> = filter (\<lambda>w. fst (run_tests ts w)) ws"
    using stateless_run [OF Cons.prems b] by simp
  finally show ?case by (simp add: case_prod_beta)
qed

section \<open>The cache flag\<close>

lemma cache_compile_excluded:
  "cache_is_good (state_of (compile_excluded lib cs s)) = cache_is_good s"
  by (simp add: compile_excluded_def)

lemma cache_update_excluded:
  "cache_is_good (state_of (update_excluded_letters_regex lib s)) = cache_is_good s"
  by (simp add: update_excluded_letters_regex_def cache_compile_excluded Let_def split: option.splits)

lemma cache_update_max: "cache_is_good (update_effective_max_length s) = cache_is_good s"
  by (simp add: update_effective_max_length_def)

lemma cache_update_min: "cache_is_good (update_effective_min_length s) = cache_is_good s"
  by (simp add: update_effective_min_length_def)

lemma setters_invalidate:
  "\<not> cache_is_good (set_max_length n s)"
  "\<not> cache_is_good (set_min_length n s)"
  "v \<noteq> available_letters s \<Longrightarrow> \<not> cache_is_good (state_of (set_available_letters lib v s))"
  "v \<noteq> limited_letters s \<Longrightarrow> \<not> cache_is_good (state_of (set_limited_letters lib v s))"
  "\<not> cache_is_good (state_of (set_excluded_letters lib v s))"
  "\<not> cache_is_good (set_included_letters v s)"
  "\<not> cache_is_good (state_of (set_pattern lib v s))"
  "\<not> cache_is_good (state_of (set_dictionary_file lib v s))"
  by (simp_all add: set_max_length_def set_min_length_def set_available_letters_def
      set_limited_letters_def set_excluded_letters_def set_included_letters_def set_pattern_def
      set_dictionary_file_def cache_update_excluded cache_update_max cache_update_min Let_def
      split: option.splits)

section \<open>Fields and effective bounds\<close>

lemma compile_excluded_fields:
  "max_length (state_of (compile_excluded lib cs s)) = max_length s"
  "effective_max_length (state_of (compile_excluded lib cs s)) = effective_max_length s"
  "min_length (state_of (compile_excluded lib cs s)) = min_length s"
  "effective_min_length (state_of (compile_excluded lib cs s)) = effective_min_length s"
  "available_letters (state_of (compile_excluded lib cs s)) = available_letters s"
  "available_letters_counted (state_of (compile_excluded lib cs s)) = available_letters_counted s"
  "limited_letters (state_of (compile_excluded lib cs s)) = limited_letters s"
  "excluded_letters (state_of (compile_excluded lib cs s)) = excluded_letters s"
  "included_letters (state_of (compile_excluded lib cs s)) = included_letters s"
  "included_letters_counted (state_of (compile_excluded lib cs s)) = included_letters_counted s"
  "pattern (state_of (compile_excluded lib cs s)) = pattern s"
  "regex (state_of (compile_excluded lib cs s)) = regex s"
  "wordlist (state_of (compile_excluded lib cs s)) = wordlist s"
  "cached_words (state_of (compile_excluded lib cs s)) = cached_words s"
  "extra_tests (state_of (compile_excluded lib cs s)) = extra_tests s"
  by (simp_all add: compile_excluded_def)

lemma update_excluded_fields:
  "max_length (state_of (update_excluded_letters_regex lib s)) = max_length s"
  "effective_max_length (state_of (update_excluded_letters_regex lib s)) = effective_max_length s"
  "min_length (state_of (update_excluded_letters_regex lib s)) = min_length s"
  "effective_min_length (state_of (update_excluded_letters_regex lib s)) = effective_min_length s"
  "available_letters (state_of (update_excluded_letters_regex lib s)) = available_letters s"
  "limited_letters (state_of (update_excluded_letters_regex lib s)) = limited_letters s"
  "excluded_letters (state_of (update_excluded_letters_regex lib s)) = excluded_letters s"
  "included_letters (state_of (update_excluded_letters_regex lib s)) = included_letters s"
  "included_letters_counted (state_of (update_excluded_letters_regex lib s)) = included_letters_counted s"
  "pattern (state_of (update_excluded_letters_regex lib s)) = pattern s"
  "regex (state_of (update_excluded_letters_regex lib s)) = regex s"
  "wordlist (state_of (update_excluded_letters_regex lib s)) = wordlist s"
  "cached_words (state_of (update_excluded_letters_regex lib s)) = cached_words s"
  "extra_tests (state_of (update_excluded_letters_regex lib s)) = extra_tests s"
  by (simp_all add: update_excluded_letters_regex_def compile_excluded_fields Let_def
      split: option.splits)

lemma find_words_rebuild:
  "find_words lib s =
     (tests_filter (extra_tests (rebuild lib s)) (cached_words (rebuild lib s)),
      (rebuild lib s)\<lparr>extra_tests :=
         tests_after (extra_tests (rebuild lib s)) (cached_words (rebuild lib s))\<rparr>)"
  by (simp add: find_words_def rebuild_def extra_filter_eq Let_def)

lemma uncounted_rebuild:
  "uncounted (rebuild lib s) =
   uncounted (s\<lparr>cached_words := cached_words (rebuild lib s),
               cache_is_good := True \<or> cache_is_good s\<rparr>)"
proof (cases "cache_is_good s")
  case True
  then have a: "rebuild lib s = s" by (simp add: rebuild_def)
  have "s\<lparr>cached_words := cached_words s, cache_is_good := True\<rparr> = s"
    using True by (cases s) simp
  then show ?thesis using a by simp
next
  case False
  obtain found s1 where r: "internal_filter lib s (wordlist s) = (found, s1)"
    by (cases "internal_filter lib s (wordlist s)") auto
  have "uncounted s1 = uncounted s"
    using uncounted_internal_filter [of lib s "wordlist s"] r by simp
  then have "uncounted (s1\<lparr>cached_words := found, cache_is_good := True\<rparr>) =
             uncounted (s\<lparr>cached_words := found, cache_is_good := True\<rparr>)"
    by (cases s; cases s1; simp add: uncounted_def)
  then show ?thesis using False r by (simp add: rebuild_def)
qed

lemma rebuild_fields:
  "max_length (rebuild lib s) = max_length s"
  "effective_max_length (rebuild lib s) = effective_max_length s"
  "min_length (rebuild lib s) = min_length s"
  "effective_min_length (rebuild lib s) = effective_min_length s"
  "available_letters (rebuild lib s) = available_letters s"
  "limited_letters (rebuild lib s) = limited_letters s"
  "excluded_letters (rebuild lib s) = excluded_letters s"
  "excluded_letters_regex (rebuild lib s) = excluded_letters_regex s"
  "included_letters (rebuild lib s) = included_letters s"
  "included_letters_counted (rebuild lib s) = included_letters_counted s"
  "pattern (rebuild lib s) = pattern s"
  "regex (rebuild lib s) = regex s"
  "wordlist (rebuild lib s) = wordlist s"
  "extra_tests (rebuild lib s) = extra_tests s"
  using uncounted_fields [OF uncounted_rebuild [of lib s]] by simp_all

lemma find_words_fields:
  "max_length (snd (find_words lib s)) = max_length s"
  "effective_max_length (snd (find_words lib s)) = effective_max_length s"
  "min_length (snd (find_words lib s)) = min_length s"
  "effective_min_length (snd (find_words lib s)) = effective_min_length s"
  "available_letters (snd (find_words lib s)) = available_letters s"
  "limited_letters (snd (find_words lib s)) = limited_letters s"
  "excluded_letters (snd (find_words lib s)) = excluded_letters s"
  "excluded_letters_regex (snd (find_words lib s)) = excluded_letters_regex s"
  "included_letters (snd (find_words lib s)) = included_letters s"
  "included_letters_counted (snd (find_words lib s)) = included_letters_counted s"
  "pattern (snd (find_words lib s)) = pattern s"
  "regex (snd (find_words lib s)) = regex s"
  "wordlist (snd (find_words lib s)) = wordlist s"
  by (simp_all add: find_words_rebuild rebuild_fields)

lemmas passes_internal_tests_fields =
  uncounted_fields [OF uncounted_passes_internal_tests]

lemma is_word_valid_snd:
  "snd (is_word_valid lib s w) = snd (passes_internal_tests lib s w) \<or>
   snd (is_word_valid lib s w) =
     (snd (passes_internal_tests lib s w))\<lparr>extra_tests :=
        snd (run_tests (extra_tests (snd (passes_internal_tests lib s w))) w)\<rparr>"
  by (simp add: is_word_valid_def passes_extra_tests_eq case_prod_beta)

lemma eff_max_fix:
  "update_effective_max_length s = s \<longleftrightarrow>
     effective_max_length s =
       (if max_length s \<noteq> 0 \<and> available_letters s \<noteq> []
        then min (max_length s) (int (length (available_letters s)))
        else if available_letters s \<noteq> [] then int (length (available_letters s))
        else if max_length s \<noteq> 0 then max_length s else 0)"
  by (cases s) (auto simp: update_effective_max_length_def)

lemma eff_min_fix:
  "update_effective_min_length s = s \<longleftrightarrow>
     effective_min_length s =
       (if min_length s \<noteq> 0 \<and> included_letters s \<noteq> []
        then max (min_length s) (int (length (included_letters s)))
        else if included_letters s \<noteq> [] then int (length (included_letters s))
        else if min_length s \<noteq> 0 then min_length s else 0)"
  by (cases s) (auto simp: update_effective_min_length_def)

lemma max_update_fields:
  "max_length (update_effective_max_length s) = max_length s"
  "min_length (update_effective_max_length s) = min_length s"
  "effective_min_length (update_effective_max_length s) = effective_min_length s"
  "available_letters (update_effective_max_length s) = available_letters s"
  "available_letters_counted (update_effective_max_length s) = available_letters_counted s"
  "limited_letters (update_effective_max_length s) = limited_letters s"
  "excluded_letters (update_effective_max_length s) = excluded_letters s"
  "excluded_letters_regex (update_effective_max_length s) = excluded_letters_regex s"
  "included_letters (update_effective_max_length s) = included_letters s"
  "included_letters_counted (update_effective_max_length s) = included_letters_counted s"
  "pattern (update_effective_max_length s) = pattern s"
  "regex (update_effective_max_length s) = regex s"
  "wordlist (update_effective_max_length s) = wordlist s"
  "cached_words (update_effective_max_length s) = cached_words s"
  "extra_tests (update_effective_max_length s) = extra_tests s"
  by (simp_all add: update_effective_max_length_def)

lemma min_update_fields:
  "max_length (update_effective_min_length s) = max_length s"
  "min_length (update_effective_min_length s) = min_length s"
  "effective_max_length (update_effective_min_length s) = effective_max_length s"
  "available_letters (update_effective_min_length s) = available_letters s"
  "available_letters_counted (update_effective_min_length s) = available_letters_counted s"
  "limited_letters (update_effective_min_length s) = limited_letters s"
  "excluded_letters (update_effective_min_length s) = excluded_letters s"
  "excluded_letters_regex (update_effective_min_length s) = excluded_letters_regex s"
  "included_letters (update_effective_min_length s) = included_letters s"
  "included_letters_counted (update_effective_min_length s) = included_letters_counted s"
  "pattern (update_effective_min_length s) = pattern s"
  "regex (update_effective_min_length s) = regex s"
  "wordlist (update_effective_min_length s) = wordlist s"
  "cached_words (update_effective_min_length s) = cached_words s"
  "extra_tests (update_effective_min_length s) = extra_tests s"
  by (simp_all add: update_effective_min_length_def)

lemma eff_max_after: "effective_max_length (update_effective_max_length s) =
       (if max_length s \<noteq> 0 \<and> available_letters s \<noteq> []
        then min (max_length s) (int (length (available_letters s)))
        else if available_letters s \<noteq> [] then int (length (available_letters s))
        else if max_length s \<noteq> 0 then max_length s else 0)"
  by (simp add: update_effective_max_length_def)

lemma eff_min_after: "effective_min_length (update_effective_min_length s) =
       (if min_length s \<noteq> 0 \<and> included_letters s \<noteq> []
        then max (min_length s) (int (length (included_letters s)))
        else if included_letters s \<noteq> [] then int (length (included_letters s))
        else if min_length s \<noteq> 0 then min_length s else 0)"
  by (simp add: update_effective_min_length_def)

lemma reachable_bounds_inv: "reachable lib ok s \<Longrightarrow> bounds_inv lib s"
proof (induction rule: reachable.induct)
  case (r_init f s)
  then show ?case
    by (auto simp: bounds_inv_def eff_max_fix eff_min_fix init_def set_dictionary_file_def
        blank_def Let_def split: option.splits)
next
  case (r_dictionary_file s v)
  then show ?case
    by (auto simp: bounds_inv_def eff_max_fix eff_min_fix set_dictionary_file_def
        Let_def split: option.splits)
next
  case (r_read_dictionary_from s fh)
  then show ?case
    by (simp add: bounds_inv_def eff_max_fix eff_min_fix read_dictionary_from_def)
next
  case (r_wordlist s ws)
  then show ?case by (simp add: bounds_inv_def eff_max_fix eff_min_fix set_wordlist_def)
next
  case (r_extra_tests s ts)
  then show ?case by (simp add: bounds_inv_def eff_max_fix eff_min_fix set_extra_tests_def)
next
  case (r_max_length s n)
  then show ?case
    by (simp add: bounds_inv_def eff_max_fix eff_min_fix set_max_length_def
        max_update_fields eff_max_after)
next
  case (r_min_length s n)
  then show ?case
    by (simp add: bounds_inv_def eff_max_fix eff_min_fix set_min_length_def
        min_update_fields eff_min_after)
next
  case (r_available_letters s v)
  then show ?case
    by (auto simp: bounds_inv_def eff_max_fix eff_min_fix set_available_letters_def
        update_excluded_fields max_update_fields eff_max_after Let_def)
next
  case (r_limited_letters s v)
  then show ?case
    by (auto simp: bounds_inv_def eff_max_fix eff_min_fix set_limited_letters_def
        update_excluded_fields Let_def)
next
  case (r_excluded_letters s v)
  then show ?case
    by (simp add: bounds_inv_def eff_max_fix eff_min_fix set_excluded_letters_def
        update_excluded_fields)
next
  case (r_included_letters s v)
  then show ?case
    by (simp add: bounds_inv_def eff_max_fix eff_min_fix set_included_letters_def
        min_update_fields eff_min_after)
next
  case (r_pattern s v)
  then show ?case
    by (auto simp: bounds_inv_def eff_max_fix eff_min_fix set_pattern_def Let_def)
next
  case (r_is_word_valid s w)
  then show ?case
    using is_word_valid_snd [of lib s w]
    by (auto simp: bounds_inv_def eff_max_fix eff_min_fix passes_internal_tests_fields)
next
  case (r_passes_extra_tests s w)
  then show ?case
    by (simp add: bounds_inv_def eff_max_fix eff_min_fix passes_extra_tests_eq)
next
  case (r_passes_internal_tests s w)
  then show ?case
    by (simp add: bounds_inv_def eff_max_fix eff_min_fix passes_internal_tests_fields)
next
  case (r_find_words s)
  then show ?case
    by (simp add: bounds_inv_def eff_max_fix eff_min_fix find_words_fields)
qed

section \<open>The letter budget under lookups\<close>

text \<open>
  The keys that lookups store carry the value 0, which is what a lookup of a missing key
  returns: the tests answer the same on the budget before and after.
\<close>

lemma same_budget_refl: "same_budget s s"
  by (simp add: same_budget_def budget_equiv_def split: option.splits)


lemma dd_touch_nonempty: "d \<noteq> [] \<Longrightarrow> dd_touch d k \<noteq> []"
  by (simp add: dd_touch_def split: option.splits)

lemma subset_loop_budget:
  "subset_loop w Lc u ls = (ok, Lc', ls') \<Longrightarrow>
     (\<forall>k. dd_get ls' k = dd_get ls k) \<and> (ls \<noteq> [] \<longrightarrow> ls' \<noteq> [])"
proof (induction w arbitrary: Lc u ls)
  case Nil
  then show ?case by simp
next
  case (Cons L w)
  show ?case
  proof (cases "dd_get (dd_incr Lc L) L > dd_get (dd_touch ls L) L")
    case over: True
    show ?thesis
    proof (cases "u + 1 > dd_get (dd_touch (dd_touch ls L) (CHR ''?'')) (CHR ''?'')")
      case True
      then show ?thesis using Cons.prems over
        by (auto simp: Let_def dd_get_touch dd_touch_nonempty)
    next
      case False
      then have "subset_loop w (dd_incr Lc L) (u + 1) (dd_touch (dd_touch ls L) (CHR ''?'')) = (ok, Lc', ls')"
        using Cons.prems over by (simp add: Let_def)
      from Cons.IH [OF this] show ?thesis
        by (simp add: dd_get_touch dd_touch_nonempty)
    qed
  next
    case False
    then have "subset_loop w (dd_incr Lc L) u (dd_touch ls L) = (ok, Lc', ls')"
      using Cons.prems by (simp add: Let_def)
    from Cons.IH [OF this] show ?thesis
      by (simp add: dd_get_touch dd_touch_nonempty)
  qed
qed

lemma subset_loop_cong:
  "(\<And>k. dd_get ls' k = dd_get ls k) \<Longrightarrow>
     fst (subset_loop w Lc u ls') = fst (subset_loop w Lc u ls) \<and>
     fst (snd (subset_loop w Lc u ls')) = fst (snd (subset_loop w Lc u ls))"
proof (induction w arbitrary: Lc u ls ls')
  case Nil
  show ?case by simp
next
  case (Cons L w)
  have a: "\<And>k. dd_get (dd_touch ls' L) k = dd_get (dd_touch ls L) k"
    using Cons.prems by (simp add: dd_get_touch)
  have b: "\<And>k. dd_get (dd_touch (dd_touch ls' L) (CHR ''?'')) k =
                dd_get (dd_touch (dd_touch ls L) (CHR ''?'')) k"
    using Cons.prems by (simp add: dd_get_touch)
  show ?case
    using Cons.IH [OF a] Cons.IH [OF b] a b
    by (simp add: Let_def)
qed

lemma budget_test_same:
  "same_budget s (snd (snd (budget_test s w)))"
proof (cases "available_letters_counted s")
  case None
  then show ?thesis by (simp add: budget_test_def same_budget_refl)
next
  case (Some d)
  show ?thesis
  proof (cases "d = []")
    case True
    then show ?thesis using Some by (simp add: budget_test_def same_budget_refl)
  next
    case False
    obtain ok Lc d1 where r: "word_is_subset_of w d = (ok, Lc, d1)"
      by (cases "word_is_subset_of w d") auto
    then have "(\<forall>k. dd_get d1 k = dd_get d k) \<and> (d \<noteq> [] \<longrightarrow> d1 \<noteq> [])"
      using subset_loop_budget [of w EMPTY_DICT 0 d ok Lc d1]
      by (simp add: word_is_subset_of_def)
    then show ?thesis using Some False r
      by (simp add: budget_test_def same_budget_def budget_equiv_def uncounted_def)
  qed
qed

lemma budget_test_cong:
  assumes "budget_equiv (available_letters_counted s) (available_letters_counted s')"
  shows "fst (budget_test s' w) = fst (budget_test s w) \<and>
         fst (snd (budget_test s' w)) = fst (snd (budget_test s w))"
proof (cases "available_letters_counted s")
  case None
  then show ?thesis using assms by (simp add: budget_test_def budget_equiv_def)
next
  case (Some d)
  then obtain d' where d': "available_letters_counted s' = Some d'"
      "\<And>k. dd_get d' k = dd_get d k" "d' = [] \<longleftrightarrow> d = []"
    using assms by (auto simp: budget_equiv_def split: option.splits)
  show ?thesis
  proof (cases "d = []")
    case True
    then show ?thesis using Some d' by (simp add: budget_test_def)
  next
    case False
    then show ?thesis
      using Some d' subset_loop_cong [of d' d w EMPTY_DICT 0]
      by (auto simp: budget_test_def word_is_subset_of_def split: prod.splits)
  qed
qed

lemma included_test_cong:
  assumes "uncounted s' = uncounted s"
  shows "included_test s' w Lc = included_test s w Lc"
proof -
  have "included_letters_counted s' = included_letters_counted s"
    using assms by (rule uncounted_fields)
  then show ?thesis by (simp add: included_test_def)
qed

lemma passes_internal_tests_same:
  "same_budget s (snd (passes_internal_tests lib s w))"
  using budget_test_same [of s w]
  by (auto simp: passes_internal_tests_def same_budget_refl split: prod.splits)

lemma passes_internal_tests_fst:
  "fst (passes_internal_tests lib s w) \<longleftrightarrow>
     \<not> (effective_min_length s \<noteq> 0 \<and> int (length w) < effective_min_length s) \<and>
     \<not> (effective_max_length s \<noteq> 0 \<and> int (length w) > effective_max_length s) \<and>
     \<not> (case regex s of None \<Rightarrow> False | Some p \<Rightarrow> \<not> re_search lib p w) \<and>
     \<not> (case excluded_letters_regex s of None \<Rightarrow> False | Some p \<Rightarrow> re_search lib p w) \<and>
     fst (budget_test s w) \<and>
     included_test (snd (snd (budget_test s w))) w (fst (snd (budget_test s w)))"
  by (cases "budget_test s w") (simp add: passes_internal_tests_def)

lemma passes_internal_tests_cong:
  assumes "same_budget s s'"
  shows "fst (passes_internal_tests lib s' w) = fst (passes_internal_tests lib s w)"
proof -
  have u: "uncounted s' = uncounted s" using assms by (simp add: same_budget_def)
  have f: "effective_min_length s' = effective_min_length s"
    "effective_max_length s' = effective_max_length s"
    "regex s' = regex s" "excluded_letters_regex s' = excluded_letters_regex s"
    using uncounted_fields [OF u] by simp_all
  have e: "budget_equiv (available_letters_counted s) (available_letters_counted s')"
    using assms by (simp add: same_budget_def)
  have b: "fst (budget_test s' w) = fst (budget_test s w)"
    "fst (snd (budget_test s' w)) = fst (snd (budget_test s w))"
    using budget_test_cong [OF e, of w] by simp_all
  have "uncounted (snd (snd (budget_test s' w))) = uncounted (snd (snd (budget_test s w)))"
    using u by (simp only: uncounted_budget_test)
  then have i: "included_test (snd (snd (budget_test s' w))) w Lc =
                included_test (snd (snd (budget_test s w))) w Lc" for Lc
    by (rule included_test_cong)
  show ?thesis
    unfolding passes_internal_tests_fst by (simp only: f b i)
qed


lemma internal_filter_eq:
  "fst (internal_filter lib s ws) = filter (\<lambda>w. fst (passes_internal_tests lib s w)) ws"
proof (induction ws arbitrary: s)
  case Nil
  show ?case by simp
next
  case (Cons w ws)
  obtain ok s1 where r: "passes_internal_tests lib s w = (ok, s1)"
    by (cases "passes_internal_tests lib s w") auto
  have sb: "same_budget s s1" using passes_internal_tests_same [of s lib w] r by simp
  have "fst (internal_filter lib s1 ws) = filter (\<lambda>w. fst (passes_internal_tests lib s1 w)) ws"
    by (rule Cons.IH)
  also have "\<dots> = filter (\<lambda>w. fst (passes_internal_tests lib s w)) ws"
    using passes_internal_tests_cong [OF sb] by simp
  finally show ?case using r by (auto split: prod.splits)
qed




lemma rebuild_cached:
  "\<not> cache_is_good s \<Longrightarrow>
     cached_words (rebuild lib s) = filter (\<lambda>w. fst (passes_internal_tests lib s w)) (wordlist s)"
  using internal_filter_eq [of lib s "wordlist s"]
  by (simp add: rebuild_def case_prod_beta)

lemma budget_test_cache_free:
  "fst (budget_test (s\<lparr>cached_words := cw, cache_is_good := g\<rparr>) w) = fst (budget_test s w)"
  "fst (snd (budget_test (s\<lparr>cached_words := cw, cache_is_good := g\<rparr>) w)) =
     fst (snd (budget_test s w))"
  "included_letters_counted (snd (snd (budget_test (s\<lparr>cached_words := cw, cache_is_good := g\<rparr>) w))) =
     included_letters_counted s"
  "included_letters_counted (snd (snd (budget_test s w))) = included_letters_counted s"
  by (simp_all add: budget_test_def split: option.splits prod.splits)






lemma find_words_stale_parts:
  assumes "\<not> cache_is_good s"
  shows "fst (find_words lib s) =
           tests_filter (extra_tests s)
             (filter (\<lambda>w. fst (passes_internal_tests lib s w)) (wordlist s))"
  using assms by (simp add: find_words_rebuild rebuild_fields rebuild_cached)

section \<open>The sample engine and the pattern field\<close>

lemma sample_init: "init sample_lib [] = Returned sample"
  by (simp add: sample_def init_def set_dictionary_file_def load_wordlist_def sample_lib_def Let_def)

lemma reachable_sample: "reachable sample_lib ok sample"
  by (rule r_init [OF sample_init])

lemma budget_test_pattern_free:
  "fst (budget_test (s\<lparr>cache_is_good := g, pattern := v\<rparr>) w) = fst (budget_test s w)"
  "fst (snd (budget_test (s\<lparr>cache_is_good := g, pattern := v\<rparr>) w)) =
     fst (snd (budget_test s w))"
  "included_letters_counted (snd (snd (budget_test (s\<lparr>cache_is_good := g, pattern := v\<rparr>) w))) =
     included_letters_counted s"
  by (simp_all add: budget_test_def split: option.splits prod.splits)

lemma passes_internal_tests_pattern_free:
  "fst (passes_internal_tests lib (s\<lparr>cache_is_good := g, pattern := v\<rparr>) w) =
   fst (passes_internal_tests lib s w)"
  by (simp add: passes_internal_tests_fst budget_test_pattern_free budget_test_cache_free
      included_test_def)

lemma reachable_exclusive:
  "reachable lib ok s \<Longrightarrow> available_letters s = [] \<or> limited_letters s = []"
  using reachable_bounds_inv [of lib ok s] by (simp add: bounds_inv_def)

lemma eff_of_fix:
  "update_effective_max_length s = s \<longleftrightarrow> effective_max_length s = effective_max_of s"
  "update_effective_min_length s = s \<longleftrightarrow> effective_min_length s = effective_min_of s"
  by (simp_all add: eff_max_fix eff_min_fix effective_max_of_def effective_min_of_def
      eff_max_after eff_min_after)

section \<open>The keys of the letter budget\<close>

lemma map_of_None_keys: "map_of d k = None \<longleftrightarrow> k \<notin> set (dd_keys d)"
  by (simp add: dd_keys_def map_of_eq_None_iff)

lemma keys_touch: "set (dd_keys (dd_touch d k)) = insert k (set (dd_keys d))"
proof (cases "map_of d k")
  case None
  then show ?thesis by (simp add: dd_touch_def dd_keys_def)
next
  case (Some v)
  then have "k \<in> set (dd_keys d)" using map_of_None_keys [of d k] by simp
  then show ?thesis using Some by (auto simp: dd_touch_def)
qed

lemma map_fst_set:
  "map fst (dd_set d k v) = (if k \<in> set (map fst d) then map fst d else map fst d @ [k])"
  by (induction d) force+

lemma keys_set: "set (dd_keys (dd_set d k v)) = insert k (set (dd_keys d))"
  unfolding dd_keys_def map_fst_set by auto

lemma keys_incr: "set (dd_keys (dd_incr d k)) = insert k (set (dd_keys d))"
  by (simp add: dd_incr_def keys_set)

lemma keys_fold_incr:
  "set (dd_keys (fold (\<lambda>L Lc. dd_incr Lc L) w d)) = set (dd_keys d) \<union> set w"
  by (induction w arbitrary: d) (auto simp: keys_incr)

lemma keys_EMPTY: "set (dd_keys EMPTY_DICT) = set lowercase"
  by (simp add: EMPTY_DICT_def dd_keys_def comp_def)

lemma keys_letter_count: "set (dd_keys (letter_count w)) = set lowercase \<union> set w"
  by (simp add: letter_count_def keys_fold_incr keys_EMPTY)

lemma tracked_literal: "tracked c \<Longrightarrow> class_literal c"
  by (auto simp: tracked_def class_literal_def lowercase_def)

lemma subset_loop_keys:
  "subset_loop w Lc u ls = (ok, Lc', ls') \<Longrightarrow>
     set (dd_keys ls) \<subseteq> set (dd_keys ls') \<and>
     set (dd_keys ls') \<subseteq> set (dd_keys ls) \<union> set w \<union> {CHR ''?''}"
proof (induction w arbitrary: Lc u ls)
  case Nil
  then show ?case by auto
next
  case (Cons L w)
  show ?case
  proof (cases "dd_get (dd_incr Lc L) L > dd_get (dd_touch ls L) L")
    case over: True
    show ?thesis
    proof (cases "u + 1 > dd_get (dd_touch (dd_touch ls L) (CHR ''?'')) (CHR ''?'')")
      case True
      then have "ls' = dd_touch (dd_touch ls L) (CHR ''?'')"
        using Cons.prems over by (simp add: Let_def)
      then show ?thesis by (auto simp: keys_touch)
    next
      case False
      then have "subset_loop w (dd_incr Lc L) (u + 1) (dd_touch (dd_touch ls L) (CHR ''?'')) = (ok, Lc', ls')"
        using Cons.prems over by (simp add: Let_def)
      from Cons.IH [OF this] show ?thesis
        by (auto simp: keys_touch)
    qed
  next
    case False
    then have "subset_loop w (dd_incr Lc L) u (dd_touch ls L) = (ok, Lc', ls')"
      using Cons.prems by (simp add: Let_def)
    from Cons.IH [OF this] show ?thesis
      by (auto simp: keys_touch)
  qed
qed

lemma budget_test_counted:
  assumes "available_letters_counted s = Some d"
  shows "\<exists>d'. available_letters_counted (snd (snd (budget_test s w))) = Some d' \<and>
           (\<forall>k. dd_get d' k = dd_get d k) \<and>
           set (dd_keys d) \<subseteq> set (dd_keys d') \<and>
           set (dd_keys d') \<subseteq> set (dd_keys d) \<union> set w \<union> {CHR ''?''}"
proof (cases "d = []")
  case True
  then show ?thesis using assms by (auto simp: budget_test_def)
next
  case False
  obtain ok Lc d1 where r: "word_is_subset_of w d = (ok, Lc, d1)"
    by (cases "word_is_subset_of w d") auto
  have a: "\<forall>k. dd_get d1 k = dd_get d k"
    using subset_loop_budget [of w EMPTY_DICT 0 d ok Lc d1] r
    by (simp add: word_is_subset_of_def)
  have b: "set (dd_keys d) \<subseteq> set (dd_keys d1) \<and>
     set (dd_keys d1) \<subseteq> set (dd_keys d) \<union> set w \<union> {CHR ''?''}"
    using subset_loop_keys [of w EMPTY_DICT 0 d ok Lc d1] r
    by (simp add: word_is_subset_of_def)
  show ?thesis using assms False r a b by (simp add: budget_test_def)
qed

lemma budget_test_None:
  "available_letters_counted s = None \<Longrightarrow> snd (snd (budget_test s w)) = s"
  by (simp add: budget_test_def)

lemma tracked_wild: "tracked (CHR ''?'')"
  by (simp add: tracked_def)

lemma budget_inv_budget_test:
  assumes "budget_inv ok s" and "list_all ok w"
  shows "budget_inv ok (snd (snd (budget_test s w)))"
proof (cases "available_letters_counted s")
  case None
  then show ?thesis using assms by (simp add: budget_test_None)
next
  case (Some d)
  let ?s' = "snd (snd (budget_test s w))"
  obtain d' where d': "available_letters_counted ?s' = Some d'"
      "\<forall>k. dd_get d' k = dd_get d k" "set (dd_keys d) \<subseteq> set (dd_keys d')"
      "set (dd_keys d') \<subseteq> set (dd_keys d) \<union> set w \<union> {CHR ''?''}"
    using budget_test_counted [OF Some, of w] by blast
  have av: "available_letters ?s' = available_letters s"
    using uncounted_fields [OF uncounted_budget_test [of s w]] by simp
  show ?thesis
  proof (cases "available_letters s = []")
    case True
    then show ?thesis using av by (simp add: budget_inv_def)
  next
    case False
    then have inv: "\<forall>k. dd_get d k = count_list (available_letters s) k"
        "set lowercase \<subseteq> set (dd_keys d)"
        "\<forall>k\<in>set (dd_keys d). dd_get d k = 0 \<longrightarrow> tracked k \<or> ok k"
      using assms(1) Some by (auto simp: budget_inv_def)
    have z: "\<forall>k\<in>set (dd_keys d'). dd_get d' k = 0 \<longrightarrow> tracked k \<or> ok k"
    proof (intro ballI impI)
      fix k assume k: "k \<in> set (dd_keys d')" "dd_get d' k = 0"
      then consider "k \<in> set (dd_keys d)" | "k \<in> set w" | "k = CHR ''?''"
        using d'(4) by auto
      then show "tracked k \<or> ok k"
      proof cases
        case 1
        then show ?thesis using inv(3) k(2) d'(2) by simp
      next
        case 2
        then show ?thesis using assms(2) by (simp add: list_all_iff)
      next
        case 3
        then show ?thesis by (simp add: tracked_wild)
      qed
    qed
    show ?thesis
      using d' inv z av by (auto simp: budget_inv_def)
  qed
qed

lemma zero_keys_budget_test: "zero_keys s \<subseteq> zero_keys (snd (snd (budget_test s w)))"
proof (cases "available_letters_counted s")
  case None
  then show ?thesis by (simp add: budget_test_None)
next
  case (Some d)
  obtain d' where d': "available_letters_counted (snd (snd (budget_test s w))) = Some d'"
      "\<forall>k. dd_get d' k = dd_get d k" "set (dd_keys d) \<subseteq> set (dd_keys d')"
    using budget_test_counted [OF Some, of w] by blast
  then show ?thesis using Some by (auto simp: zero_keys_def)
qed

lemma class_inv_mono:
  assumes "class_inv s"
    and "excluded_letters_regex s' = excluded_letters_regex s"
    and "excluded_letters s' = excluded_letters s"
    and "available_letters s' = available_letters s"
    and "zero_keys s \<subseteq> zero_keys s'"
  shows "class_inv s'"
proof -
  obtain cs where cs: "excluded_letters_regex s = (if cs = [] then None else Some (CHR ''['' # cs @ '']''))"
      "\<forall>c\<in>set cs. c \<in> set (excluded_letters s) \<or> (no_slack s \<and> c \<in> zero_keys s)"
      "\<forall>c. c \<in> set (excluded_letters s) \<or>
              (no_slack s \<and> tracked c \<and> count_list (available_letters s) c = 0)
              \<longrightarrow> c \<in> set cs"
    using assms(1) unfolding class_inv_def by blast
  have n: "no_slack s' = no_slack s" using assms(4) by (simp add: no_slack_def)
  have "excluded_letters_regex s' = (if cs = [] then None else Some (CHR ''['' # cs @ '']'')) \<and>
        (\<forall>c\<in>set cs. c \<in> set (excluded_letters s') \<or> (no_slack s' \<and> c \<in> zero_keys s')) \<and>
        (\<forall>c. c \<in> set (excluded_letters s') \<or>
              (no_slack s' \<and> tracked c \<and> count_list (available_letters s') c = 0)
              \<longrightarrow> c \<in> set cs)"
    using cs assms(2-5) n by auto
  then show ?thesis unfolding class_inv_def by blast
qed

lemma budget_inv_cong:
  "available_letters s' = available_letters s \<Longrightarrow>
   available_letters_counted s' = available_letters_counted s \<Longrightarrow>
   budget_inv ok s' = budget_inv ok s"
  by (simp add: budget_inv_def)

lemma zero_keys_cong:
  "available_letters_counted s' = available_letters_counted s \<Longrightarrow> zero_keys s' = zero_keys s"
  by (simp add: zero_keys_def)

lemma excluded_inv_cong:
  assumes "excluded_inv ok s"
    and "available_letters s' = available_letters s"
    and "available_letters_counted s' = available_letters_counted s"
    and "excluded_letters s' = excluded_letters s"
    and "excluded_letters_regex s' = excluded_letters_regex s"
  shows "excluded_inv ok s'"
proof -
  have "class_inv s'"
    using assms class_inv_mono [of s s'] zero_keys_cong [of s' s]
    by (simp add: excluded_inv_def)
  then show ?thesis
    using assms budget_inv_cong [of s' s ok] by (simp add: excluded_inv_def)
qed

lemma excluded_inv_budget_test:
  assumes "excluded_inv ok s" and "list_all ok w"
  shows "excluded_inv ok (snd (snd (budget_test s w)))"
proof -
  let ?s' = "snd (snd (budget_test s w))"
  have f: "excluded_letters_regex ?s' = excluded_letters_regex s"
    "excluded_letters ?s' = excluded_letters s" "available_letters ?s' = available_letters s"
    using uncounted_fields [OF uncounted_budget_test [of s w]] by simp_all
  have "class_inv ?s'"
    using assms(1) f zero_keys_budget_test [of s w] class_inv_mono [of s ?s']
    by (simp add: excluded_inv_def)
  then show ?thesis
    using assms f budget_inv_budget_test [of ok s w] by (simp add: excluded_inv_def)
qed

lemma passes_internal_tests_snd:
  "snd (passes_internal_tests lib s w) = s \<or>
   snd (passes_internal_tests lib s w) = snd (snd (budget_test s w))"
  by (cases "budget_test s w") (simp add: passes_internal_tests_def)

lemma excluded_inv_passes_internal_tests:
  assumes "excluded_inv ok s" and "list_all ok w"
  shows "excluded_inv ok (snd (passes_internal_tests lib s w))"
  using passes_internal_tests_snd [of lib s w] excluded_inv_budget_test [OF assms] assms(1)
  by auto

lemma excluded_inv_internal_filter:
  "excluded_inv ok s \<Longrightarrow> list_all (list_all ok) ws \<Longrightarrow>
     excluded_inv ok (snd (internal_filter lib s ws))"
proof (induction ws arbitrary: s)
  case Nil
  then show ?case by simp
next
  case (Cons w ws)
  have "excluded_inv ok (snd (passes_internal_tests lib s w))"
    using Cons.prems by (simp add: excluded_inv_passes_internal_tests)
  then have "excluded_inv ok (snd (internal_filter lib (snd (passes_internal_tests lib s w)) ws))"
    using Cons.prems by (intro Cons.IH) simp_all
  then show ?case by (simp add: case_prod_beta)
qed

lemma excluded_inv_find_words:
  assumes "excluded_inv ok s" and "list_all (list_all ok) (wordlist s)"
  shows "excluded_inv ok (snd (find_words lib s))"
proof -
  have r: "excluded_inv ok (rebuild lib s)"
  proof (cases "cache_is_good s")
    case True
    then show ?thesis using assms by (simp add: rebuild_def)
  next
    case False
    let ?s1 = "snd (internal_filter lib s (wordlist s))"
    have i: "excluded_inv ok ?s1" using assms by (rule excluded_inv_internal_filter)
    have "rebuild lib s =
            ?s1\<lparr>cached_words := fst (internal_filter lib s (wordlist s)), cache_is_good := True\<rparr>"
      using False by (simp add: rebuild_def case_prod_beta)
    then show ?thesis using excluded_inv_cong [OF i] by simp
  qed
  show ?thesis
    by (rule excluded_inv_cong [OF r]) (simp_all add: find_words_rebuild)
qed

lemma excluded_inv_is_word_valid:
  assumes "excluded_inv ok s" and "list_all ok w"
  shows "excluded_inv ok (snd (is_word_valid lib s w))"
proof -
  have p: "excluded_inv ok (snd (passes_internal_tests lib s w))"
    using assms by (rule excluded_inv_passes_internal_tests)
  have "excluded_inv ok ((snd (passes_internal_tests lib s w))\<lparr>extra_tests := ts\<rparr>)" for ts
    by (rule excluded_inv_cong [OF p]) simp_all
  then show ?thesis using p is_word_valid_snd [of lib s w] by auto
qed

section \<open>Recomputing the derived regex\<close>

lemma compile_excluded_ok:
  assumes "class_semantics lib" and "\<forall>c\<in>set cs. class_literal c"
  shows "compile_excluded lib cs s =
           Returned (s\<lparr>excluded_letters_regex :=
                        (if cs = [] then None else Some (CHR ''['' # cs @ '']''))\<rparr>)"
proof (cases "cs = []")
  case True
  then show ?thesis by (simp add: compile_excluded_def)
next
  case False
  then have "re_valid lib (CHR ''['' # cs @ '']'')"
    using assms unfolding class_semantics_def by blast
  then show ?thesis using False by (simp add: compile_excluded_def)
qed

lemma class_match:
  assumes "class_semantics lib" and "\<forall>c\<in>set cs. class_literal c"
    and "excluded_letters_regex s = (if cs = [] then None else Some (CHR ''['' # cs @ '']''))"
  shows "excluded_match lib s w \<longleftrightarrow> (\<exists>c\<in>set w. c \<in> set cs)"
proof (cases "cs = []")
  case True
  then show ?thesis using assms(3) by (simp add: excluded_match_def)
next
  case False
  then have "re_search lib (CHR ''['' # cs @ '']'') w \<longleftrightarrow> (\<exists>c\<in>set w. c \<in> set cs)"
    using assms(1,2) unfolding class_semantics_def by blast
  then show ?thesis using False assms(3) by (simp add: excluded_match_def)
qed

lemma update_excluded_establishes:
  assumes sem: "class_semantics lib" and lit: "\<forall>c. ok c \<longrightarrow> class_literal c"
    and b: "budget_inv ok s" and e: "list_all ok (excluded_letters s)"
  shows "\<exists>s'. update_excluded_letters_regex lib s = Returned s' \<and> excluded_inv ok s' \<and>
           (\<forall>w. excluded_match lib s' w \<longleftrightarrow>
              (\<exists>x\<in>set w. x \<in> set (excluded_letters s) \<or> (no_slack s \<and> x \<in> zero_keys s'))) \<and>
           zero_keys s \<subseteq> zero_keys s' \<and>
           budget_equiv (available_letters_counted s) (available_letters_counted s')"
proof (cases "available_letters s = []")
  case True
  let ?cs = "remdups (excluded_letters s)"
  let ?s' = "s\<lparr>excluded_letters_regex := (if ?cs = [] then None else Some (CHR ''['' # ?cs @ '']''))\<rparr>"
  have l: "\<forall>c\<in>set ?cs. class_literal c"
    using e lit by (simp add: list_all_iff)
  have r: "update_excluded_letters_regex lib s = Returned ?s'"
    using True compile_excluded_ok [OF sem l, of s]
    by (simp add: update_excluded_letters_regex_def)
  have n: "\<not> no_slack ?s'" "\<not> no_slack s" using True by (simp_all add: no_slack_def)
  have "excluded_letters_regex ?s' = (if ?cs = [] then None else Some (CHR ''['' # ?cs @ '']'')) \<and>
        (\<forall>c\<in>set ?cs. c \<in> set (excluded_letters ?s') \<or> (no_slack ?s' \<and> c \<in> zero_keys ?s')) \<and>
        (\<forall>c. c \<in> set (excluded_letters ?s') \<or>
              (no_slack ?s' \<and> tracked c \<and> count_list (available_letters ?s') c = 0)
              \<longrightarrow> c \<in> set ?cs)"
    using n by simp
  then have c: "class_inv ?s'" unfolding class_inv_def by blast
  have "budget_inv ok ?s'" using True by (simp add: budget_inv_def)
  then have i: "excluded_inv ok ?s'" using c e by (simp add: excluded_inv_def)
  have m: "\<forall>w. excluded_match lib ?s' w \<longleftrightarrow>
              (\<exists>x\<in>set w. x \<in> set (excluded_letters s) \<or> (no_slack s \<and> x \<in> zero_keys ?s'))"
    using class_match [OF sem l, of ?s'] n by simp
  have z: "zero_keys s \<subseteq> zero_keys ?s'" by (simp add: zero_keys_def)
  have q: "budget_equiv (available_letters_counted s) (available_letters_counted ?s')"
    by (simp add: budget_equiv_def split: option.splits)
  show ?thesis using r i m z q by blast
next
  case False
  then obtain d where d: "available_letters_counted s = Some d"
      "\<forall>k. dd_get d k = count_list (available_letters s) k"
      "set lowercase \<subseteq> set (dd_keys d)"
      "\<forall>k\<in>set (dd_keys d). dd_get d k = 0 \<longrightarrow> tracked k \<or> ok k"
    using b unfolding budget_inv_def by blast
  let ?d1 = "dd_touch d (CHR ''?'')"
  let ?un = "if dd_get ?d1 (CHR ''?'') = 0 then filter (\<lambda>L. dd_get ?d1 L = 0) (dd_keys ?d1) else []"
  let ?cs = "remdups (excluded_letters s @ ?un)"
  let ?s1 = "s\<lparr>available_letters_counted := Some ?d1\<rparr>"
  let ?s' = "?s1\<lparr>excluded_letters_regex := (if ?cs = [] then None else Some (CHR ''['' # ?cs @ '']''))\<rparr>"
  have g: "\<forall>k. dd_get ?d1 k = count_list (available_letters s) k"
    using d(2) by (simp add: dd_get_touch)
  have k1: "set (dd_keys ?d1) = insert (CHR ''?'') (set (dd_keys d))"
    by (rule keys_touch)
  have z: "\<forall>k\<in>set (dd_keys ?d1). dd_get ?d1 k = 0 \<longrightarrow> tracked k \<or> ok k"
    using d(4) k1 by (auto simp: dd_get_touch tracked_wild)
  have un: "set ?un = (if count_list (available_letters s) (CHR ''?'') = 0
                      then {k \<in> set (dd_keys ?d1). count_list (available_letters s) k = 0} else {})"
    using g by auto
  have l: "\<forall>c\<in>set ?cs. class_literal c"
  proof
    fix c assume "c \<in> set ?cs"
    then consider "c \<in> set (excluded_letters s)" | "c \<in> set ?un" by auto
    then show "class_literal c"
    proof cases
      case 1
      then show ?thesis using e lit by (simp add: list_all_iff)
    next
      case 2
      then have "c \<in> set (dd_keys ?d1) \<and> dd_get ?d1 c = 0"
        by (auto split: if_splits)
      then have "tracked c \<or> ok c" using z by blast
      then show ?thesis using lit tracked_literal by blast
    qed
  qed
  have r: "update_excluded_letters_regex lib s = Returned ?s'"
    using False d(1) compile_excluded_ok [OF sem l, of ?s1]
    by (simp add: update_excluded_letters_regex_def Let_def)
  have ns: "no_slack ?s' \<longleftrightarrow> count_list (available_letters s) (CHR ''?'') = 0"
    "no_slack s \<longleftrightarrow> count_list (available_letters s) (CHR ''?'') = 0"
    using False by (simp_all add: no_slack_def)
  have zk: "zero_keys ?s' = {k \<in> set (dd_keys ?d1). count_list (available_letters s) k = 0}"
    using g by (simp add: zero_keys_def)
  have tr: "\<And>c. tracked c \<Longrightarrow> c \<in> set (dd_keys ?d1)"
    using d(3) k1 by (auto simp: tracked_def)
  have c1: "\<forall>c\<in>set ?cs. c \<in> set (excluded_letters ?s') \<or> (no_slack ?s' \<and> c \<in> zero_keys ?s')"
    unfolding ns zk using un by (auto split: if_splits)
  have c2: "\<forall>c. c \<in> set (excluded_letters ?s') \<or>
              (no_slack ?s' \<and> tracked c \<and> count_list (available_letters ?s') c = 0)
              \<longrightarrow> c \<in> set ?cs"
    unfolding ns using un tr by auto
  have "excluded_letters_regex ?s' = (if ?cs = [] then None else Some (CHR ''['' # ?cs @ '']''))"
    by simp
  then have c: "class_inv ?s'" using c1 c2 unfolding class_inv_def by blast
  have "budget_inv ok ?s'"
    unfolding budget_inv_def using g z d(3) k1 by auto
  then have i: "excluded_inv ok ?s'" using c e by (simp add: excluded_inv_def)
  have mem: "set ?cs = set (excluded_letters s) \<union> (if no_slack s then zero_keys ?s' else {})"
    unfolding ns zk using un by auto
  have "\<forall>w. excluded_match lib ?s' w \<longleftrightarrow> (\<exists>c\<in>set w. c \<in> set ?cs)"
    using class_match [OF sem l, of ?s'] by simp
  then have m: "\<forall>w. excluded_match lib ?s' w \<longleftrightarrow>
              (\<exists>x\<in>set w. x \<in> set (excluded_letters s) \<or> (no_slack s \<and> x \<in> zero_keys ?s'))"
    unfolding mem by auto
  have zs: "zero_keys s \<subseteq> zero_keys ?s'"
    using d(1,2) k1 unfolding zk by (auto simp: zero_keys_def)
  have "d \<noteq> []" using d(3) by (auto simp: dd_keys_def lowercase_def)
  then have q: "budget_equiv (available_letters_counted s) (available_letters_counted ?s')"
    using d(1) by (simp add: budget_equiv_def dd_get_touch dd_touch_nonempty)
  show ?thesis using r i m zs q by blast
qed

section \<open>The derived regex in reachable states\<close>

lemma word_ok_eq: "word_ok ok = list_all ok"
  by (simp add: word_ok_def fun_eq_iff)

lemma excluded_inv_blank: "excluded_inv ok blank"
proof -
  have "excluded_letters_regex blank = (if ([]::string) = [] then None else Some (CHR ''['' # [] @ '']'')) \<and>
        (\<forall>c\<in>set ([]::string). c \<in> set (excluded_letters blank) \<or> (no_slack blank \<and> c \<in> zero_keys blank)) \<and>
        (\<forall>c. c \<in> set (excluded_letters blank) \<or>
              (no_slack blank \<and> tracked c \<and> count_list (available_letters blank) c = 0)
              \<longrightarrow> c \<in> set ([]::string))"
    by (simp add: blank_def no_slack_def)
  then have "class_inv blank" unfolding class_inv_def by blast
  then show ?thesis by (simp add: excluded_inv_def budget_inv_def blank_def)
qed

lemma budget_inv_letter_count:
  assumes "v \<noteq> []" and "available_letters s = v"
    and "available_letters_counted s = Some (letter_count v)"
  shows "budget_inv ok s"
proof -
  have z: "\<forall>k\<in>set (dd_keys (letter_count v)). dd_get (letter_count v) k = 0 \<longrightarrow> tracked k \<or> ok k"
    by (auto simp: keys_letter_count dd_get_letter_count count_list_0_iff tracked_def)
  show ?thesis
    unfolding budget_inv_def using assms z
    by (auto simp: dd_get_letter_count keys_letter_count)
qed

lemma budget_inv_unavailable: "available_letters s = [] \<Longrightarrow> budget_inv ok s"
  by (simp add: budget_inv_def)

lemma excluded_inv_set_available:
  assumes sem: "class_semantics lib" and lit: "\<forall>c. ok c \<longrightarrow> class_literal c"
    and inv: "excluded_inv ok s"
  shows "excluded_inv ok (state_of (set_available_letters lib v s))"
proof (cases "v = available_letters s")
  case True
  then show ?thesis using inv by (simp add: set_available_letters_def)
next
  case False
  show ?thesis
  proof (cases "limited_letters s = []")
    case lim: False
    have "excluded_inv ok (s\<lparr>cache_is_good := False\<rparr>)"
      using excluded_inv_cong [OF inv] by simp
    then show ?thesis using False lim by (simp add: set_available_letters_def)
  next
    case True
    let ?s2 = "update_effective_max_length
                 (s\<lparr>cache_is_good := False, available_letters := v,
                     available_letters_counted := (if v \<noteq> [] then Some (letter_count v) else None)\<rparr>)"
    have f: "available_letters ?s2 = v"
      "available_letters_counted ?s2 = (if v \<noteq> [] then Some (letter_count v) else None)"
      "excluded_letters ?s2 = excluded_letters s"
      by (simp_all add: max_update_fields)
    have b: "budget_inv ok ?s2"
    proof (cases "v = []")
      case True
      then show ?thesis using f by (simp add: budget_inv_unavailable)
    next
      case False
      then show ?thesis using f by (intro budget_inv_letter_count [of v]) simp_all
    qed
    have e: "list_all ok (excluded_letters ?s2)"
      using inv f by (simp add: excluded_inv_def)
    obtain s' where "update_excluded_letters_regex lib ?s2 = Returned s'" "excluded_inv ok s'"
      using update_excluded_establishes [OF sem lit b e] by blast
    then show ?thesis using False True by (simp add: set_available_letters_def Let_def)
  qed
qed

lemma excluded_inv_set_limited:
  assumes sem: "class_semantics lib" and lit: "\<forall>c. ok c \<longrightarrow> class_literal c"
    and inv: "excluded_inv ok s"
  shows "excluded_inv ok (state_of (set_limited_letters lib v s))"
proof (cases "v = limited_letters s")
  case True
  then show ?thesis using inv by (simp add: set_limited_letters_def)
next
  case False
  show ?thesis
  proof (cases "available_letters s = []")
    case av: False
    have "excluded_inv ok (s\<lparr>cache_is_good := False\<rparr>)"
      using excluded_inv_cong [OF inv] by simp
    then show ?thesis using False av by (simp add: set_limited_letters_def)
  next
    case True
    let ?s2 = "s\<lparr>cache_is_good := False, limited_letters := v,
                  available_letters_counted :=
                    (if v \<noteq> [] then Some (limiting_letter_count v) else None)\<rparr>"
    have b: "budget_inv ok ?s2" using True by (simp add: budget_inv_unavailable)
    have e: "list_all ok (excluded_letters ?s2)"
      using inv by (simp add: excluded_inv_def)
    obtain s' where "update_excluded_letters_regex lib ?s2 = Returned s'" "excluded_inv ok s'"
      using update_excluded_establishes [OF sem lit b e] by blast
    then show ?thesis using False True by (simp add: set_limited_letters_def Let_def)
  qed
qed

lemma excluded_inv_set_excluded:
  assumes sem: "class_semantics lib" and lit: "\<forall>c. ok c \<longrightarrow> class_literal c"
    and inv: "excluded_inv ok s" and v: "list_all ok v"
  shows "excluded_inv ok (state_of (set_excluded_letters lib v s))"
proof -
  let ?s2 = "s\<lparr>cache_is_good := False, excluded_letters := v\<rparr>"
  have "budget_inv ok s" using inv by (simp add: excluded_inv_def)
  then have b: "budget_inv ok ?s2" using budget_inv_cong [of ?s2 s ok] by simp
  have e: "list_all ok (excluded_letters ?s2)" using v by simp
  obtain s' where "update_excluded_letters_regex lib ?s2 = Returned s'" "excluded_inv ok s'"
    using update_excluded_establishes [OF sem lit b e] by blast
  then show ?thesis by (simp add: set_excluded_letters_def)
qed

lemma reachable_excluded_inv:
  assumes sem: "class_semantics lib" and lit: "\<forall>c. ok c \<longrightarrow> class_literal c"
  shows "reachable lib ok s \<Longrightarrow> excluded_inv ok s"
proof (induction rule: reachable.induct)
  case (r_init f s)
  then have "available_letters s = available_letters blank"
    "available_letters_counted s = available_letters_counted blank"
    "excluded_letters s = excluded_letters blank"
    "excluded_letters_regex s = excluded_letters_regex blank"
    by (auto simp: init_def set_dictionary_file_def Let_def split: option.splits)
  then show ?case by (rule excluded_inv_cong [OF excluded_inv_blank])
next
  case (r_dictionary_file s v)
  show ?case
    by (rule excluded_inv_cong [OF r_dictionary_file.IH])
      (simp_all add: set_dictionary_file_def Let_def split: option.splits)
next
  case (r_read_dictionary_from s fh)
  show ?case
    by (rule excluded_inv_cong [OF r_read_dictionary_from.IH])
      (simp_all add: read_dictionary_from_def)
next
  case (r_wordlist s ws)
  show ?case
    by (rule excluded_inv_cong [OF r_wordlist.IH]) (simp_all add: set_wordlist_def)
next
  case (r_extra_tests s ts)
  show ?case
    by (rule excluded_inv_cong [OF r_extra_tests.IH]) (simp_all add: set_extra_tests_def)
next
  case (r_max_length s n)
  show ?case
    by (rule excluded_inv_cong [OF r_max_length.IH])
      (simp_all add: set_max_length_def max_update_fields)
next
  case (r_min_length s n)
  show ?case
    by (rule excluded_inv_cong [OF r_min_length.IH])
      (simp_all add: set_min_length_def min_update_fields)
next
  case (r_available_letters s v)
  then show ?case by (simp add: excluded_inv_set_available [OF sem lit])
next
  case (r_limited_letters s v)
  then show ?case by (simp add: excluded_inv_set_limited [OF sem lit])
next
  case (r_excluded_letters s v)
  then show ?case by (simp add: excluded_inv_set_excluded [OF sem lit] word_ok_eq)
next
  case (r_included_letters s v)
  show ?case
    by (rule excluded_inv_cong [OF r_included_letters.IH])
      (simp_all add: set_included_letters_def min_update_fields)
next
  case (r_pattern s v)
  show ?case
    by (rule excluded_inv_cong [OF r_pattern.IH]) (simp_all add: set_pattern_def Let_def)
next
  case (r_is_word_valid s w)
  then show ?case by (simp add: excluded_inv_is_word_valid word_ok_eq)
next
  case (r_passes_extra_tests s w)
  show ?case
    by (rule excluded_inv_cong [OF r_passes_extra_tests.IH])
      (simp_all add: passes_extra_tests_eq)
next
  case (r_passes_internal_tests s w)
  then show ?case by (simp add: excluded_inv_passes_internal_tests word_ok_eq)
next
  case (r_find_words s)
  then show ?case by (simp add: excluded_inv_find_words word_ok_eq)
qed

lemma mini_valid_class:
  assumes "cs \<noteq> []" and "\<forall>c\<in>set cs. class_literal c"
  shows "mini_valid (CHR ''['' # cs @ '']'')"
proof -
  have n: "cs \<noteq> ''^''"
  proof
    assume "cs = ''^''"
    then have "class_literal (CHR ''^'')" using assms(2) by simp
    then show False by (simp add: class_literal_def)
  qed
  have "cs @ '']'' \<noteq> ''^]''"
  proof
    assume "cs @ '']'' = ''^]''"
    then have "cs @ '']'' = ''^'' @ '']''" by simp
    then have "cs = ''^''" by (simp only: append1_eq_conv)
    then show False using n by simp
  qed
  then show ?thesis by (simp add: mini_valid_def)
qed

lemma mini_search_class:
  "mini_search (CHR ''['' # cs @ '']'') w \<longleftrightarrow> (\<exists>c\<in>set w. c \<in> set cs)"
  by (simp add: mini_search_def list_ex_iff)

lemma class_semantics_sample: "class_semantics sample_lib"
  unfolding class_semantics_def
  by (simp add: sample_lib_def mini_valid_class mini_search_class)

lemma class_inv_match:
  assumes sem: "class_semantics lib" and lit: "\<forall>c. ok c \<longrightarrow> class_literal c"
    and inv: "excluded_inv ok s"
  shows "\<exists>cs. excluded_letters_regex s = (if cs = [] then None else Some (CHR ''['' # cs @ '']'')) \<and>
           (\<forall>w. excluded_match lib s w \<longleftrightarrow> (\<exists>c\<in>set w. c \<in> set cs)) \<and>
           (\<forall>c\<in>set cs. c \<in> set (excluded_letters s) \<or> (no_slack s \<and> c \<in> zero_keys s)) \<and>
           (\<forall>c. c \<in> set (excluded_letters s) \<or>
              (no_slack s \<and> tracked c \<and> count_list (available_letters s) c = 0)
              \<longrightarrow> c \<in> set cs)"
proof -
  obtain cs where cs: "excluded_letters_regex s = (if cs = [] then None else Some (CHR ''['' # cs @ '']''))"
      "\<forall>c\<in>set cs. c \<in> set (excluded_letters s) \<or> (no_slack s \<and> c \<in> zero_keys s)"
      "\<forall>c. c \<in> set (excluded_letters s) \<or>
              (no_slack s \<and> tracked c \<and> count_list (available_letters s) c = 0)
              \<longrightarrow> c \<in> set cs"
    using inv unfolding excluded_inv_def class_inv_def by blast
  have e: "list_all ok (excluded_letters s)" and b: "budget_inv ok s"
    using inv by (simp_all add: excluded_inv_def)
  have l: "\<forall>c\<in>set cs. class_literal c"
  proof
    fix c assume c: "c \<in> set cs"
    show "class_literal c"
    proof (cases "c \<in> set (excluded_letters s)")
      case True
      then show ?thesis using e lit by (simp add: list_all_iff)
    next
      case False
      then have n: "no_slack s" "c \<in> zero_keys s" using cs(2) c by auto
      then have "available_letters s \<noteq> []" by (simp add: no_slack_def)
      then obtain d where d: "available_letters_counted s = Some d"
          "\<forall>k\<in>set (dd_keys d). dd_get d k = 0 \<longrightarrow> tracked k \<or> ok k"
        using b unfolding budget_inv_def by blast
      then have "tracked c \<or> ok c" using n(2) by (auto simp: zero_keys_def)
      then show ?thesis using lit tracked_literal by blast
    qed
  qed
  have m: "\<forall>w. excluded_match lib s w \<longleftrightarrow> (\<exists>c\<in>set w. c \<in> set cs)"
  proof (cases "cs = []")
    case True
    then show ?thesis using cs(1) by (simp add: excluded_match_def)
  next
    case False
    then have "\<forall>w. re_search lib (CHR ''['' # cs @ '']'') w \<longleftrightarrow> (\<exists>c\<in>set w. c \<in> set cs)"
      using sem l unfolding class_semantics_def by blast
    then show ?thesis using False cs(1) by (simp add: excluded_match_def)
  qed
  show ?thesis using cs m by blast
qed


lemma lowercase_literal: "\<forall>c. c \<in> set lowercase \<longrightarrow> class_literal c"
  by (simp add: tracked_literal tracked_def)

section \<open>Tightening the exclusion\<close>

lemma find_words_set:
  assumes "cache_coherent lib s"
  shows "fst (find_words lib s) =
           tests_filter (extra_tests s)
             (filter (\<lambda>w. fst (passes_internal_tests lib s w)) (wordlist s))"
proof (cases "cache_is_good s")
  case False
  then show ?thesis by (rule find_words_stale_parts)
next
  case True
  then have "cached_words s = filter (\<lambda>w. fst (passes_internal_tests lib s w)) (wordlist s)"
    using assms by (simp add: cache_coherent_def)
  then show ?thesis using True by (simp add: find_words_rebuild rebuild_def)
qed

lemma excluded_tightening:
  assumes sem: "class_semantics lib" and lit: "\<forall>c. ok c \<longrightarrow> class_literal c"
    and r: "reachable lib ok s" and coh: "cache_coherent lib s" and c: "ok c"
    and pure: "list_all stateless (extra_tests s)"
  shows "set (fst (find_words lib (state_of (set_excluded_letters lib (excluded_letters s @ [c]) s))))
           \<subseteq> set (fst (find_words lib s))"
proof -
  have inv: "excluded_inv ok s" by (rule reachable_excluded_inv [OF sem lit r])
  let ?s2 = "s\<lparr>cache_is_good := False, excluded_letters := excluded_letters s @ [c]\<rparr>"
  have "budget_inv ok s" using inv by (simp add: excluded_inv_def)
  then have b2: "budget_inv ok ?s2" using budget_inv_cong [of ?s2 s ok] by simp
  have e2: "list_all ok (excluded_letters ?s2)"
    using inv c by (simp add: excluded_inv_def)
  obtain s' where s': "update_excluded_letters_regex lib ?s2 = Returned s'"
    and m: "\<forall>w. excluded_match lib s' w \<longleftrightarrow>
              (\<exists>x\<in>set w. x \<in> set (excluded_letters ?s2) \<or> (no_slack ?s2 \<and> x \<in> zero_keys s'))"
    and z: "zero_keys ?s2 \<subseteq> zero_keys s'"
    and q: "budget_equiv (available_letters_counted ?s2) (available_letters_counted s')"
    using update_excluded_establishes [OF sem lit b2 e2] by blast
  have st: "state_of (set_excluded_letters lib (excluded_letters s @ [c]) s) = s'"
    using s' by (simp add: set_excluded_letters_def)
  have so: "state_of (update_excluded_letters_regex lib ?s2) = s'" using s' by simp
  have f: "effective_min_length s' = effective_min_length s"
    "effective_max_length s' = effective_max_length s"
    "regex s' = regex s" "included_letters_counted s' = included_letters_counted s"
    "wordlist s' = wordlist s" "extra_tests s' = extra_tests s"
    using update_excluded_fields [of lib ?s2] unfolding so by simp_all
  have stale: "\<not> cache_is_good s'"
    using cache_update_excluded [of lib ?s2] unfolding so by simp
  obtain cs where cs: "\<forall>w. excluded_match lib s w \<longleftrightarrow> (\<exists>c\<in>set w. c \<in> set cs)"
      "\<forall>c\<in>set cs. c \<in> set (excluded_letters s) \<or> (no_slack s \<and> c \<in> zero_keys s)"
    using class_inv_match [OF sem lit inv] by blast
  have ns: "no_slack ?s2 = no_slack s" by (simp add: no_slack_def)
  have zs: "zero_keys s \<subseteq> zero_keys s'" using z by (simp add: zero_keys_def)
  have mono: "excluded_match lib s w \<Longrightarrow> excluded_match lib s' w" for w
  proof -
    assume "excluded_match lib s w"
    then obtain x where x: "x \<in> set w" "x \<in> set cs" using cs(1) by blast
    then have "x \<in> set (excluded_letters s) \<or> (no_slack s \<and> x \<in> zero_keys s)"
      using cs(2) by blast
    then have "x \<in> set (excluded_letters ?s2) \<or> (no_slack ?s2 \<and> x \<in> zero_keys s')"
      using zs ns by auto
    then show "excluded_match lib s' w" using m x(1) by blast
  qed
  have q': "budget_equiv (available_letters_counted s) (available_letters_counted s')"
    using q by simp
  have bt: "fst (budget_test s' w) = fst (budget_test s w)"
    "fst (snd (budget_test s' w)) = fst (snd (budget_test s w))" for w
    using budget_test_cong [OF q', of w] by simp_all
  have it: "included_test (snd (snd (budget_test s' w))) w Lc =
            included_test (snd (snd (budget_test s w))) w Lc" for w Lc
    by (simp add: included_test_def budget_test_cache_free(4) f)
  have pit: "fst (passes_internal_tests lib s' w) \<Longrightarrow> fst (passes_internal_tests lib s w)" for w
    unfolding passes_internal_tests_fst excluded_match_def [symmetric]
    using mono [of w] by (auto simp: f bt it)
  have after: "fst (find_words lib s') =
     filter (\<lambda>w. fst (run_tests (extra_tests s) w))
       (filter (\<lambda>w. fst (passes_internal_tests lib s' w)) (wordlist s))"
    using find_words_stale_parts [OF stale, of lib] tests_filter_stateless [OF pure] f by simp
  have before: "fst (find_words lib s) =
     filter (\<lambda>w. fst (run_tests (extra_tests s) w))
       (filter (\<lambda>w. fst (passes_internal_tests lib s w)) (wordlist s))"
    using find_words_set [OF coh] tests_filter_stateless [OF pure] by simp
  show ?thesis
    unfolding st after before using pit by auto
qed

lemma reachable_sample_stale:
  "reachable sample_lib (\<lambda>c. c \<in> set lowercase) sample_stale"
  unfolding sample_stale_def
  by (rule r_wordlist [OF r_find_words [OF reachable_sample]])
    (simp add: sample_def init_def set_dictionary_file_def load_wordlist_def sample_lib_def
      blank_def read_wordlist_def strip_def is_space_def word_ok_def lowercase_def Let_def)

section \<open>The claims\<close>

text \<open>
  C1. Every setter that changes a constraint, and the \<^verbatim>\<open>dictionary_file\<close> setter, leave the
  cache stale (\<open>setters_invalidate\<close>). \<^verbatim>\<open>read_dictionary_from\<close> and an assignment to
  \<^verbatim>\<open>wordlist\<close> replace the word list and leave the cache flag as it was. Evaluated on
  the sample engine: after one query the word list is replaced by \<^verbatim>\<open>["dog"]\<close>, the cache
  still counts as fresh, and the next query returns the six words of the old list.
\<close>

theorem word_list_replacement_keeps_cache:
  "cache_is_good (read_dictionary_from fh s) = cache_is_good s \<and>
   cache_is_good (set_wordlist ws s) = cache_is_good s \<and>
   \<not> cache_is_good (state_of (set_dictionary_file lib v s)) \<and>
   fst (find_words sample_lib sample) = [''cat'', ''cart'', ''art'', ''tar'', ''rat'', ''cats''] \<and>
   cache_is_good (read_dictionary_from (''pets'', [''dog'']) (snd (find_words sample_lib sample))) \<and>
   wordlist (read_dictionary_from (''pets'', [''dog'']) (snd (find_words sample_lib sample))) = [''dog''] \<and>
   fst (find_words sample_lib
          (read_dictionary_from (''pets'', [''dog'']) (snd (find_words sample_lib sample)))) =
     [''cat'', ''cart'', ''art'', ''tar'', ''rat'', ''cats''] \<and>
   fst (find_words sample_lib (set_wordlist [''dog''] (snd (find_words sample_lib sample)))) =
     [''cat'', ''cart'', ''art'', ''tar'', ''rat'', ''cats'']"
proof -
  have a: "cache_is_good (read_dictionary_from fh s) = cache_is_good s"
    by (simp add: read_dictionary_from_def)
  have b: "cache_is_good (set_wordlist ws s) = cache_is_good s"
    by (simp add: set_wordlist_def)
  have c: "\<not> cache_is_good (state_of (set_dictionary_file lib v s))"
    by (rule setters_invalidate)
  have d: "fst (find_words sample_lib sample) = [''cat'', ''cart'', ''art'', ''tar'', ''rat'', ''cats'']"
    by code_simp
  have e: "cache_is_good (read_dictionary_from (''pets'', [''dog'']) (snd (find_words sample_lib sample)))"
    by code_simp
  have f: "wordlist (read_dictionary_from (''pets'', [''dog'']) (snd (find_words sample_lib sample))) = [''dog'']"
    by code_simp
  have g: "fst (find_words sample_lib
          (read_dictionary_from (''pets'', [''dog'']) (snd (find_words sample_lib sample)))) =
     [''cat'', ''cart'', ''art'', ''tar'', ''rat'', ''cats'']"
    by code_simp
  have h: "fst (find_words sample_lib (set_wordlist [''dog''] (snd (find_words sample_lib sample)))) =
     [''cat'', ''cart'', ''art'', ''tar'', ''rat'', ''cats'']"
    by code_simp
  show ?thesis using a b c d e f g h by blast
qed



text \<open>
  C4. While \<^verbatim>\<open>available_letters\<close> is non-empty, assigning a non-empty value other than
  the current one to \<^verbatim>\<open>limited_letters\<close> raises the conflict error and leaves both
  fields as they were; and symmetrically. In a reachable state at most one of the two
  fields is non-empty, so there every non-empty value is another value.
\<close>

theorem conflicting_letters_rejected:
  "(available_letters s \<noteq> [] \<and> v \<noteq> [] \<and> v \<noteq> limited_letters s \<longrightarrow>
      (\<exists>s'. set_limited_letters lib v s = Raised ConflictingConstraint s' \<and>
            available_letters s' = available_letters s \<and>
            limited_letters s' = limited_letters s)) \<and>
   (limited_letters s \<noteq> [] \<and> v \<noteq> [] \<and> v \<noteq> available_letters s \<longrightarrow>
      (\<exists>s'. set_available_letters lib v s = Raised ConflictingConstraint s' \<and>
            available_letters s' = available_letters s \<and>
            limited_letters s' = limited_letters s)) \<and>
   (reachable lib ok s \<and> available_letters s \<noteq> [] \<and> v \<noteq> [] \<longrightarrow>
      (\<exists>s'. set_limited_letters lib v s = Raised ConflictingConstraint s' \<and>
            available_letters s' = available_letters s \<and>
            limited_letters s' = limited_letters s)) \<and>
   (reachable lib ok s \<and> limited_letters s \<noteq> [] \<and> v \<noteq> [] \<longrightarrow>
      (\<exists>s'. set_available_letters lib v s = Raised ConflictingConstraint s' \<and>
            available_letters s' = available_letters s \<and>
            limited_letters s' = limited_letters s))"
  using reachable_exclusive [of lib ok s]
  by (auto simp: set_limited_letters_def set_available_letters_def)

theorem conflicting_letters_rejected_witness:
  "reachable sample_lib (\<lambda>c. True) (state_of (set_available_letters sample_lib ''cat'' sample)) \<and>
   available_letters (state_of (set_available_letters sample_lib ''cat'' sample)) \<noteq> [] \<and>
   (\<exists>s'. set_limited_letters sample_lib ''xy'' (state_of (set_available_letters sample_lib ''cat'' sample)) =
           Raised ConflictingConstraint s' \<and>
         available_letters s' = ''cat'' \<and> limited_letters s' = []) \<and>
   reachable sample_lib (\<lambda>c. True) (state_of (set_limited_letters sample_lib ''aab'' sample)) \<and>
   limited_letters (state_of (set_limited_letters sample_lib ''aab'' sample)) \<noteq> [] \<and>
   (\<exists>s'. set_available_letters sample_lib ''cat'' (state_of (set_limited_letters sample_lib ''aab'' sample)) =
           Raised ConflictingConstraint s' \<and>
         available_letters s' = [] \<and> limited_letters s' = ''aab'')"
proof -
  let ?a = "state_of (set_available_letters sample_lib ''cat'' sample)"
  let ?l = "state_of (set_limited_letters sample_lib ''aab'' sample)"
  have ra: "reachable sample_lib (\<lambda>c. True) ?a"
    by (rule r_available_letters [OF reachable_sample])
  have rl: "reachable sample_lib (\<lambda>c. True) ?l"
    by (rule r_limited_letters [OF reachable_sample])
  have a: "available_letters ?a = ''cat''" "limited_letters ?a = []"
    by code_simp+
  have l: "available_letters ?l = []" "limited_letters ?l = ''aab''"
    by code_simp+
  show ?thesis
    using conflicting_letters_rejected [of ?a "''xy''" sample_lib "\<lambda>c. True"]
      conflicting_letters_rejected [of ?l "''cat''" sample_lib "\<lambda>c. True"] ra rl a l
    by auto
qed

text \<open>
  C5. When the extra tests are stateless, a second \<^verbatim>\<open>find_words()\<close> with nothing assigned
  in between returns the list the first one returned: the second call reuses the cache,
  and the tests answer on each cached word what they answered before.
\<close>

theorem find_words_twice:
  "list_all stateless (extra_tests s) \<longrightarrow>
     fst (find_words lib (snd (find_words lib s))) = fst (find_words lib s)"
proof
  assume p: "list_all stateless (extra_tests s)"
  let ?r = "rebuild lib s"
  let ?ts = "tests_after (extra_tests ?r) (cached_words ?r)"
  let ?s' = "?r\<lparr>extra_tests := ?ts\<rparr>"
  have g: "cache_is_good ?r" by (simp add: rebuild_def case_prod_beta)
  have s': "snd (find_words lib s) = ?s'" by (simp add: find_words_rebuild)
  have r': "rebuild lib ?s' = ?s'" using g by (simp add: rebuild_def)
  have first: "fst (find_words lib s) = tests_filter (extra_tests s) (cached_words ?r)"
    by (simp add: find_words_rebuild rebuild_fields)
  have second: "fst (find_words lib ?s') = tests_filter ?ts (cached_words ?r)"
    by (simp add: find_words_rebuild [of lib ?s'] r')
  have b: "map snd ?ts = map snd (extra_tests s)"
    by (simp add: tests_after_behaviour rebuild_fields)
  then have q: "list_all stateless ?ts" using p stateless_behaviour by blast
  have "tests_filter ?ts (cached_words ?r) =
          filter (\<lambda>w. fst (run_tests ?ts w)) (cached_words ?r)"
    using q by (rule tests_filter_stateless)
  also have "\<dots> = filter (\<lambda>w. fst (run_tests (extra_tests s) w)) (cached_words ?r)"
    using stateless_run [OF p b] by simp
  also have "\<dots> = tests_filter (extra_tests s) (cached_words ?r)"
    using tests_filter_stateless [OF p] by simp
  finally show "fst (find_words lib (snd (find_words lib s))) = fst (find_words lib s)"
    unfolding s' first second .
qed

theorem find_words_twice_witness:
  "list_all stateless (extra_tests sample_tested) \<and>
   fst (find_words sample_lib (snd (find_words sample_lib sample_tested))) =
     fst (find_words sample_lib sample_tested) \<and>
   fst (find_words sample_lib (snd (find_words sample_lib sample_tested))) =
     [''cat'', ''art'', ''tar'', ''rat'']"
proof -
  have t: "extra_tests sample_tested = [three_letters]"
    by (simp add: sample_tested_def set_extra_tests_def)
  have p: "list_all stateless (extra_tests sample_tested)"
    unfolding t by (simp add: stateless_def three_letters_def)
  have v: "fst (find_words sample_lib sample_tested) = [''cat'', ''art'', ''tar'', ''rat'']"
    unfolding sample_tested_def by code_simp
  show ?thesis using find_words_twice [of sample_tested sample_lib] p v by simp
qed

text \<open>
  Without the condition the statement fails: an extra test is any callable, called
  afresh in every query. With a test that answers true on its first four calls, the
  first query returns four words and the second, on the same cache, none.
\<close>

theorem find_words_twice_counterexample:
  "fst (find_words sample_lib sample_counting) = [''cat'', ''cart'', ''art'', ''tar''] \<and>
   fst (find_words sample_lib (snd (find_words sample_lib sample_counting))) = [] \<and>
   fst (find_words sample_lib (snd (find_words sample_lib sample_counting))) \<noteq>
     fst (find_words sample_lib sample_counting)"
  unfolding sample_counting_def by code_simp

text \<open>
  C7. In every reachable state the stored effective bounds are the values the two
  update methods compute from the current fields: the minimum of \<^verbatim>\<open>max_length\<close> and the
  number of available letters when \<^verbatim>\<open>max_length\<close> is not 0 and there are available
  letters, the number of available letters when only they are set, \<^verbatim>\<open>max_length\<close>
  otherwise; and likewise the maximum of \<^verbatim>\<open>min_length\<close> and the number of included
  letters. For lengths that are not negative this is the bound in the words of the
  specification. Recomputing twice is recomputing once. \<^verbatim>\<open>included_letters = "cat"\<close>
  gives the effective minimum 3, and 5 with \<^verbatim>\<open>min_length = 5\<close>, in either order of
  assignment.
\<close>

theorem effective_bounds:
  "(reachable lib ok s \<longrightarrow>
      effective_max_length s = effective_max_of s \<and>
      effective_min_length s = effective_min_of s \<and>
      (max_length s \<noteq> 0 \<and> available_letters s \<noteq> [] \<longrightarrow>
         effective_max_length s = min (max_length s) (int (length (available_letters s)))) \<and>
      (max_length s = 0 \<and> available_letters s \<noteq> [] \<longrightarrow>
         effective_max_length s = int (length (available_letters s))) \<and>
      (available_letters s = [] \<longrightarrow> effective_max_length s = max_length s) \<and>
      (0 \<le> max_length s \<longrightarrow> effective_max_length s = claimed_effective_max s) \<and>
      (min_length s \<noteq> 0 \<and> included_letters s \<noteq> [] \<longrightarrow>
         effective_min_length s = max (min_length s) (int (length (included_letters s)))) \<and>
      (min_length s = 0 \<and> included_letters s \<noteq> [] \<longrightarrow>
         effective_min_length s = int (length (included_letters s))) \<and>
      (included_letters s = [] \<longrightarrow> effective_min_length s = min_length s) \<and>
      (0 \<le> min_length s \<longrightarrow> effective_min_length s = claimed_effective_min s)) \<and>
   update_effective_max_length (update_effective_max_length s) = update_effective_max_length s \<and>
   update_effective_min_length (update_effective_min_length s) = update_effective_min_length s \<and>
   effective_min_length (set_included_letters ''cat'' sample) = 3 \<and>
   effective_min_length (set_included_letters ''cat'' (set_min_length 5 sample)) = 5 \<and>
   effective_min_length (set_min_length 5 (set_included_letters ''cat'' sample)) = 5"
proof -
  have a: "reachable lib ok s \<longrightarrow>
      effective_max_length s = effective_max_of s \<and> effective_min_length s = effective_min_of s"
    using reachable_bounds_inv [of lib ok s] by (simp add: bounds_inv_def eff_of_fix)
  have i1: "update_effective_max_length (update_effective_max_length s) = update_effective_max_length s"
    by (simp add: update_effective_max_length_def)
  have i2: "update_effective_min_length (update_effective_min_length s) = update_effective_min_length s"
    by (simp add: update_effective_min_length_def)
  have e1: "effective_min_length (set_included_letters ''cat'' sample) = 3"
    by code_simp
  have e2: "effective_min_length (set_included_letters ''cat'' (set_min_length 5 sample)) = 5"
    by code_simp
  have e3: "effective_min_length (set_min_length 5 (set_included_letters ''cat'' sample)) = 5"
    by code_simp
  show ?thesis
    using a i1 i2 e1 e2 e3
    by (auto simp: effective_max_of_def effective_min_of_def eff_max_after eff_min_after
        claimed_effective_max_def claimed_effective_min_def)
qed

theorem effective_bounds_witness:
  "reachable sample_lib (\<lambda>c. True)
     (state_of (set_available_letters sample_lib ''cart'' (set_max_length 3 sample))) \<and>
   effective_max_length
     (state_of (set_available_letters sample_lib ''cart'' (set_max_length 3 sample))) = 3 \<and>
   reachable sample_lib (\<lambda>c. True) (set_included_letters ''cat'' sample) \<and>
   effective_min_length (set_included_letters ''cat'' sample) =
     claimed_effective_min (set_included_letters ''cat'' sample)"
proof -
  let ?s = "state_of (set_available_letters sample_lib ''cart'' (set_max_length 3 sample))"
  let ?t = "set_included_letters ''cat'' sample"
  have r: "reachable sample_lib (\<lambda>c. True) ?s"
    by (rule r_available_letters [OF r_max_length [OF reachable_sample]])
  have r2: "reachable sample_lib (\<lambda>c. True) ?t"
    by (rule r_included_letters [OF reachable_sample])
  have m: "max_length ?s = 3" "available_letters ?s = ''cart''"
    by code_simp+
  have n: "min_length ?t = 0"
    by code_simp
  show ?thesis
    using effective_bounds [of sample_lib "\<lambda>c. True" ?s]
      effective_bounds [of sample_lib "\<lambda>c. True" ?t] r r2 m n
    by simp
qed

text \<open>
  For a negative length the stored bound is not the bound in the words of the
  specification: the code takes every length other than 0 as set. With
  \<^verbatim>\<open>max_length = -1\<close> and \<^verbatim>\<open>available_letters = "cart"\<close> the effective maximum is -1, where
  "both set and positive, else whichever is set" gives 4; with \<^verbatim>\<open>min_length = -2\<close> and no
  included letters the effective minimum is -2, where the words give 0.
\<close>

theorem effective_bounds_counterexample:
  "max_length sample_negative_max = - 1 \<and>
   available_letters sample_negative_max = ''cart'' \<and>
   effective_max_length sample_negative_max = - 1 \<and>
   claimed_effective_max sample_negative_max = 4 \<and>
   effective_max_length sample_negative_max \<noteq> claimed_effective_max sample_negative_max \<and>
   min_length sample_negative_min = - 2 \<and>
   included_letters sample_negative_min = [] \<and>
   effective_min_length sample_negative_min = - 2 \<and>
   claimed_effective_min sample_negative_min = 0 \<and>
   effective_min_length sample_negative_min \<noteq> claimed_effective_min sample_negative_min"
  unfolding sample_negative_max_def sample_negative_min_def by code_simp

text \<open>
  C9. Assigning to \<^verbatim>\<open>pattern\<close> a non-empty string that \<^verbatim>\<open>re.compile\<close> rejects raises in
  the assignment itself. Assigning a string that compiles, or the empty string, returns,
  with the compiled pattern or \<^verbatim>\<open>None\<close> stored.
\<close>

theorem pattern_setter_raises_at_assignment:
  "(v \<noteq> [] \<and> \<not> re_valid lib v \<longrightarrow> raised (set_pattern lib v s) = Some InvalidPattern) \<and>
   (v \<noteq> [] \<and> re_valid lib v \<longrightarrow>
      set_pattern lib v s = Returned (s\<lparr>cache_is_good := False, pattern := v, regex := Some v\<rparr>)) \<and>
   set_pattern lib [] s = Returned (s\<lparr>cache_is_good := False, pattern := [], regex := None\<rparr>)"
  by (simp add: set_pattern_def)

theorem pattern_setter_raises_at_assignment_witness:
  "''('' \<noteq> [] \<and> \<not> re_valid sample_lib ''('' \<and>
   raised (set_pattern sample_lib ''('' sample) = Some InvalidPattern \<and>
   ''^c'' \<noteq> [] \<and> re_valid sample_lib ''^c'' \<and>
   raised (set_pattern sample_lib ''^c'' sample) = None \<and>
   regex (state_of (set_pattern sample_lib ''^c'' sample)) = Some ''^c''"
proof -
  have a: "\<not> re_valid sample_lib ''(''" by (simp add: sample_lib_def mini_valid_def)
  have b: "re_valid sample_lib ''^c''" by (simp add: sample_lib_def mini_valid_def)
  show ?thesis
    using pattern_setter_raises_at_assignment [of "''(''" sample_lib sample]
      pattern_setter_raises_at_assignment [of "''^c''" sample_lib sample] a b
    by simp
qed

text \<open>
  C10. When the assignment of a malformed pattern raises, the pattern string is already
  the malformed value and the cache is already stale, while the compiled regex is the
  one of before, and the internal tests answer as before. In a reachable state the
  stored regex is then not the compiled form of the stored pattern.
\<close>

theorem pattern_setter_not_atomic:
  "v \<noteq> [] \<and> \<not> re_valid lib v \<longrightarrow>
     (\<exists>s'. set_pattern lib v s = Raised InvalidPattern s' \<and>
           pattern s' = v \<and> \<not> cache_is_good s' \<and> regex s' = regex s \<and>
           (\<forall>w. fst (passes_internal_tests lib s' w) = fst (passes_internal_tests lib s w)) \<and>
           (reachable lib ok s \<longrightarrow> regex s' \<noteq> Some (pattern s')))"
proof (intro impI)
  assume h: "v \<noteq> [] \<and> \<not> re_valid lib v"
  let ?s' = "s\<lparr>cache_is_good := False, pattern := v\<rparr>"
  have r: "set_pattern lib v s = Raised InvalidPattern ?s'"
    using h by (simp add: set_pattern_def)
  have p: "\<forall>w. fst (passes_internal_tests lib ?s' w) = fst (passes_internal_tests lib s w)"
    by (simp add: passes_internal_tests_pattern_free)
  have q: "reachable lib ok s \<longrightarrow> regex ?s' \<noteq> Some (pattern ?s')"
  proof
    assume "reachable lib ok s"
    then have "case regex s of None \<Rightarrow> True | Some p \<Rightarrow> re_valid lib p"
      using reachable_bounds_inv [of lib ok s] by (simp add: bounds_inv_def)
    then show "regex ?s' \<noteq> Some (pattern ?s')" using h by (auto split: option.splits)
  qed
  show "\<exists>s'. set_pattern lib v s = Raised InvalidPattern s' \<and>
           pattern s' = v \<and> \<not> cache_is_good s' \<and> regex s' = regex s \<and>
           (\<forall>w. fst (passes_internal_tests lib s' w) = fst (passes_internal_tests lib s w)) \<and>
           (reachable lib ok s \<longrightarrow> regex s' \<noteq> Some (pattern s'))"
    using r p q by (intro exI [of _ ?s']) simp
qed

theorem pattern_setter_not_atomic_witness:
  "''('' \<noteq> [] \<and> \<not> re_valid sample_lib ''('' \<and>
   reachable sample_lib (\<lambda>c. True) (state_of (set_pattern sample_lib ''^c'' sample)) \<and>
   (\<exists>s'. set_pattern sample_lib ''('' (state_of (set_pattern sample_lib ''^c'' sample)) =
           Raised InvalidPattern s' \<and>
         pattern s' = ''('' \<and> \<not> cache_is_good s' \<and> regex s' = Some ''^c'' \<and>
         regex s' \<noteq> Some (pattern s')) \<and>
   fst (find_words sample_lib
         (state_of (set_pattern sample_lib ''('' (state_of (set_pattern sample_lib ''^c'' sample))))) =
     [''cat'', ''cart'', ''cats'']"
proof -
  let ?s = "state_of (set_pattern sample_lib ''^c'' sample)"
  have a: "\<not> re_valid sample_lib ''(''" by (simp add: sample_lib_def mini_valid_def)
  have r: "reachable sample_lib (\<lambda>c. True) ?s"
    by (rule r_pattern [OF reachable_sample])
  have g: "regex ?s = Some ''^c''" by code_simp
  have f: "fst (find_words sample_lib (state_of (set_pattern sample_lib ''('' ?s))) =
     [''cat'', ''cart'', ''cats'']"
    by code_simp
  show ?thesis
    using pattern_setter_not_atomic [of "''(''" sample_lib ?s "\<lambda>c. True"] a r g f
    by auto
qed




text \<open>
  Nor does it extend to the characters that are special inside a class. The class
  \<^verbatim>\<open>[^]\<close> does not compile, so \<^verbatim>\<open>excluded_letters = "^"\<close> raises after the string is
  stored, and after a later successful assignment to another field the regex still is
  the one of before.
\<close>

lemma excluded_setter_keeps_regex:
  "raised (set_excluded_letters sample_lib ''^'' sample) = Some InvalidPattern \<and>
   excluded_letters (set_max_length 3 (state_of (set_excluded_letters sample_lib ''^'' sample))) = ''^'' \<and>
   excluded_letters_regex (set_max_length 3 (state_of (set_excluded_letters sample_lib ''^'' sample))) = None"
  by code_simp

text \<open>
  C6. Appending a letter to \<^verbatim>\<open>excluded_letters\<close> never adds a word to the result of
  \<^verbatim>\<open>find_words()\<close>, provided the cache of the state before is stale or holds what a
  rebuild would compute (and under the assumptions on the characters of C8, with
  stateless extra tests). Without
  that proviso the statement fails in a reachable state: in the sample engine after one
  query and the assignment \<^verbatim>\<open>wordlist = ["dog"]\<close>, the query before the mutation returns
  the six cached words of the old list, and the query after it returns \<^verbatim>\<open>["dog"]\<close>.
\<close>

theorem excluded_letters_tightening:
  "(class_semantics lib \<and> (\<forall>c. ok c \<longrightarrow> class_literal c) \<and> reachable lib ok s \<and>
      cache_coherent lib s \<and> ok c \<and> list_all stateless (extra_tests s) \<longrightarrow>
      set (fst (find_words lib (state_of (set_excluded_letters lib (excluded_letters s @ [c]) s))))
        \<subseteq> set (fst (find_words lib s))) \<and>
   reachable sample_lib (\<lambda>c. c \<in> set lowercase) sample_stale \<and>
   \<not> cache_coherent sample_lib sample_stale \<and>
   fst (find_words sample_lib sample_stale) =
     [''cat'', ''cart'', ''art'', ''tar'', ''rat'', ''cats''] \<and>
   fst (find_words sample_lib
         (state_of (set_excluded_letters sample_lib (excluded_letters sample_stale @ ''x'')
            sample_stale))) = [''dog''] \<and>
   \<not> set (fst (find_words sample_lib
         (state_of (set_excluded_letters sample_lib (excluded_letters sample_stale @ ''x'')
            sample_stale)))) \<subseteq> set (fst (find_words sample_lib sample_stale))"
proof -
  have g: "class_semantics lib \<and> (\<forall>c. ok c \<longrightarrow> class_literal c) \<and> reachable lib ok s \<and>
      cache_coherent lib s \<and> ok c \<and> list_all stateless (extra_tests s) \<longrightarrow>
      set (fst (find_words lib (state_of (set_excluded_letters lib (excluded_letters s @ [c]) s))))
        \<subseteq> set (fst (find_words lib s))"
    using excluded_tightening [of lib ok s c] by blast
  have b: "fst (find_words sample_lib sample_stale) =
     [''cat'', ''cart'', ''art'', ''tar'', ''rat'', ''cats'']"
    unfolding sample_stale_def by code_simp
  have a: "fst (find_words sample_lib
         (state_of (set_excluded_letters sample_lib (excluded_letters sample_stale @ ''x'')
            sample_stale))) = [''dog'']"
    unfolding sample_stale_def by code_simp
  have n: "\<not> cache_coherent sample_lib sample_stale"
    unfolding cache_coherent_def sample_stale_def by code_simp
  have "\<not> set [''dog''] \<subseteq> set [''cat'', ''cart'', ''art'', ''tar'', ''rat'', ''cats'']"
    by simp
  then show ?thesis using g b a n reachable_sample_stale by simp
qed

theorem excluded_letters_tightening_witness:
  "class_semantics sample_lib \<and> list_all class_literal lowercase \<and>
   reachable sample_lib (\<lambda>c. c \<in> set lowercase) sample \<and> cache_coherent sample_lib sample \<and>
   CHR ''r'' \<in> set lowercase \<and> list_all stateless (extra_tests sample) \<and>
   set (fst (find_words sample_lib
          (state_of (set_excluded_letters sample_lib (excluded_letters sample @ ''r'') sample))))
     \<subseteq> set (fst (find_words sample_lib sample)) \<and>
   fst (find_words sample_lib
          (state_of (set_excluded_letters sample_lib (excluded_letters sample @ ''r'') sample))) =
     [''cat'', ''cats'']"
proof -
  have c: "cache_coherent sample_lib sample"
    unfolding cache_coherent_def by code_simp
  have l: "CHR ''r'' \<in> set lowercase" by (simp add: lowercase_def)
  have "extra_tests sample = []" by code_simp
  then have p: "list_all stateless (extra_tests sample)" by simp
  have v: "fst (find_words sample_lib
          (state_of (set_excluded_letters sample_lib (excluded_letters sample @ ''r'') sample))) =
     [''cat'', ''cats'']"
    by code_simp
  show ?thesis
    using excluded_letters_tightening [of sample_lib "\<lambda>c. c \<in> set lowercase" sample "CHR ''r''"]
      class_semantics_sample lowercase_literal reachable_sample c l v p
    by (simp add: list_all_iff)
qed


end
